theory Spec2Isabelle
  imports Complex_Main "HOL-Library.Sublist"
begin

section \<open>Data model\<close>

text \<open>
  The records follow \<^verbatim>\<open>models/position.model.ts\<close> and \<^verbatim>\<open>config.ts\<close>.
  A JavaScript \<^verbatim>\<open>number\<close> that carries a price or a size is payload the services
  never compute with; it is kept as a \<^typ>\<open>real\<close>. Timestamps (\<^verbatim>\<open>Date.now()\<close>,
  epoch milliseconds) and error counters are integers far below \<open>2^53\<close>, where the
  arithmetic of doubles is exact, and are modelled as \<^typ>\<open>int\<close>.
  An object used as a dictionary (\<^verbatim>\<open>{ [accountName: string]: T }\<close>) is a map
  from the key to the stored value; a missing key reads as \<^verbatim>\<open>undefined\<close>,
  which is \<open>None\<close>, unless the key is the name of a property that every object
  inherits (see \<open>inheritedNames\<close> below). Assigning under the key \<open>__proto__\<close> stores
  no entry but tries to replace the prototype of the dictionary; an account of that name
  is outside what the model of \<^verbatim>\<open>initializeAccount\<close> covers.
\<close>

type_synonym number = real

datatype PositionSide = LONG | SHORT

datatype MarginMode = CROSS | ISOLATED

record Position =
  symbol :: string
  side :: PositionSide
  size_p :: number
  notionalValue :: number
  entryPrice :: number
  markPrice :: number
  liquidationPrice :: number
  liquidationPriceChangePercent :: number
  currentFundingRate :: number
  nextFundingRate :: number
  leverage :: number
  unrealizedPnl :: number
  realizedPnl :: number
  marginMode :: MarginMode
  exchange_p :: string
  accountName_p :: string

record AccountSummary =
  exchange_s :: string
  accountName_s :: string
  accountType_s :: string
  baseCurrency :: string
  baseBalance :: number
  totalNotionalValue :: number
  accountLeverage :: number
  openPositionsCount :: number
  openOrdersCount :: number
  liquidationBuffer :: number
  accountMarginRatio :: number

record ExchangeData =
  positions :: "Position list"
  accountSummary :: AccountSummary

text \<open>
  \<^verbatim>\<open>AccountConfig\<close>: the TypeScript types of \<open>exchange\<close> and \<open>accountType\<close> are
  unions of string literals, but a configuration that arrives in a request body is not
  checked against them, and \<^verbatim>\<open>initializeAccount\<close> has branches for every other
  string. Both fields are therefore strings.
\<close>

record AccountConfig =
  name :: string
  exchange :: string
  accountType :: string
  apiKey :: string
  apiSecret :: string
  baseUrl :: "string option"

record CombinedData =
  accounts :: "string \<rightharpoonup> ExchangeData"
  currentAccount :: string
  availableAccounts :: "string list"
  accountConfigs :: "string \<rightharpoonup> AccountConfig"

subsection \<open>Exchange connectors\<close>

text \<open>
  The connector classes (\<^verbatim>\<open>BinanceClient\<close>, \<^verbatim>\<open>BybitClient\<close>) are external
  collaborators. A client is identified by the constructor call that made it. What its
  \<^verbatim>\<open>initialize()\<close> and \<^verbatim>\<open>getExchangeData()\<close> promises settle to is a parameter
  of every function that awaits one of them: \<open>Resolved v\<close> or \<open>Rejected message\<close>.
\<close>

datatype BinanceAccountType = FUTURES | PORTFOLIO_MARGIN

datatype ExchangeClient =
    BinanceClient BinanceAccountType string string "string option"
  | BybitClient string string "string option"

datatype 'a promise = Resolved 'a | Rejected string

section \<open>accountManagerService.ts\<close>

text \<open>
  The four module-level dictionaries of the account manager, keyed by account name.
  \<^verbatim>\<open>errorCounts\<close> is declared as a dictionary of numbers, and \<open>errorCounts\<close> holds its
  entries that are numbers. The \<^verbatim>\<open>catch\<close> block of \<^verbatim>\<open>fetchAccountData\<close> can also
  leave a string in it (see \<open>garbleCount\<close> below); such an entry is kept in
  \<open>errorTexts\<close>, as the number \<open>k\<close> of characters \<open>1\<close> the string ends with. An entry that
  is a number comes first: \<open>errorTexts\<close> is what \<^verbatim>\<open>errorCounts[name]\<close> holds only while
  \<open>errorCounts\<close> has no number for the name.
\<close>

record am_state =
  exchangeClients :: "string \<rightharpoonup> ExchangeClient"
  lastFetchTimes :: "string \<rightharpoonup> int"
  errorCounts :: "string \<rightharpoonup> int"
  backoffTimes :: "string \<rightharpoonup> int"
  errorTexts :: "string \<rightharpoonup> nat"

definition am_init :: am_state where
  "am_init = \<lparr>exchangeClients = Map.empty, lastFetchTimes = Map.empty,
              errorCounts = Map.empty, backoffTimes = Map.empty, errorTexts = Map.empty\<rparr>"

definition MAX_CONSECUTIVE_ERRORS :: int where
  "MAX_CONSECUTIVE_ERRORS = 5"

definition INITIAL_BACKOFF :: int where
  "INITIAL_BACKOFF = 30000"

text \<open>\<^verbatim>\<open>d[k] || 0\<close> on a dictionary of numbers: \<open>undefined\<close> and \<open>0\<close> both give \<open>0\<close>.\<close>

definition or_zero :: "int option \<Rightarrow> int" where
  "or_zero v = (case v of None \<Rightarrow> 0 | Some n \<Rightarrow> n)"

text \<open>
  \<^verbatim>\<open>d[k] > t\<close>: a comparison with \<open>undefined\<close> is false, and so is one with an
  inherited function, which converts to \<^verbatim>\<open>NaN\<close>.
\<close>

definition exceeds :: "int option \<Rightarrow> int \<Rightarrow> bool" where
  "exceeds v t = (case v of None \<Rightarrow> False | Some n \<Rightarrow> n > t)"

text \<open>
  The dictionaries are plain objects (\<^verbatim>\<open>{}\<close>), so each inherits the properties of
  \<^verbatim>\<open>Object.prototype\<close>. For a key in this list that has no entry, \<^verbatim>\<open>d[k]\<close> is
  not \<^verbatim>\<open>undefined\<close> but the inherited value: a function, and for \<open>__proto__\<close> the
  prototype object. Either is truthy, has no method \<^verbatim>\<open>getExchangeData\<close>, and is
  \<^verbatim>\<open>NaN\<close> as a number.
\<close>

definition inheritedNames :: "string list" where
  "inheritedNames =
    [''constructor'', ''__defineGetter__'', ''__defineSetter__'', ''hasOwnProperty'',
     ''__lookupGetter__'', ''__lookupSetter__'', ''isPrototypeOf'', ''propertyIsEnumerable'',
     ''toString'', ''valueOf'', ''__proto__'', ''toLocaleString'']"

text \<open>
  The string an inherited function converts to, as Node prints a built-in function, and
  the string an entry \<open>k\<close> of \<open>errorTexts\<close> stands for.
\<close>

definition inheritedText :: "string \<Rightarrow> string" where
  "inheritedText accountName =
    ''function '' @ (if accountName = ''constructor'' then ''Object'' else accountName)
      @ ''() { [native code] }''"

definition errorText :: "string \<Rightarrow> nat \<Rightarrow> string" where
  "errorText accountName k = inheritedText accountName @ replicate k (CHR ''1'')"

subsection \<open>initializeAccount\<close>

text \<open>
  The \<^verbatim>\<open>switch\<close> that builds the client, with its three \<^verbatim>\<open>throw\<close>s as \<open>Inl\<close>.
\<close>

definition makeClient :: "AccountConfig \<Rightarrow> string + ExchangeClient" where
  "makeClient c =
    (if exchange c = ''binance'' then
       (if accountType c = ''futures''
          then Inr (BinanceClient FUTURES (apiKey c) (apiSecret c) (baseUrl c))
        else if accountType c = ''portfolioMargin''
          then Inr (BinanceClient PORTFOLIO_MARGIN (apiKey c) (apiSecret c) (baseUrl c))
        else Inl (''Unsupported Binance account type: '' @ accountType c))
     else if exchange c = ''bybit'' then
       (if accountType c = ''unified''
          then Inr (BybitClient (apiKey c) (apiSecret c) (baseUrl c))
        else Inl (''Unsupported Bybit account type: '' @ accountType c))
     else Inl (''Unsupported exchange: '' @ exchange c))"

text \<open>
  \<open>initialize\<close> is what \<^verbatim>\<open>await client.initialize()\<close> settles to for the client just
  built. Every \<^verbatim>\<open>throw\<close> happens before the first write, so a failed call returns the
  state it was given. The four assignments store four entries under every account name
  but \<open>__proto__\<close>, which the model does not cover.
\<close>

definition initializeAccount ::
  "(ExchangeClient \<Rightarrow> unit promise) \<Rightarrow> am_state \<Rightarrow> AccountConfig \<Rightarrow> (string + unit) \<times> am_state" where
  "initializeAccount initialize s accountConfig =
    (case makeClient accountConfig of
       Inl err \<Rightarrow> (Inl err, s)
     | Inr client \<Rightarrow>
        (case initialize client of
           Rejected err \<Rightarrow> (Inl err, s)
         | Resolved _ \<Rightarrow>
            (Inr (),
             s\<lparr>exchangeClients := (exchangeClients s)(name accountConfig \<mapsto> client),
               lastFetchTimes := (lastFetchTimes s)(name accountConfig \<mapsto> 0),
               errorCounts := (errorCounts s)(name accountConfig \<mapsto> 0),
               backoffTimes := (backoffTimes s)(name accountConfig \<mapsto> 0)\<rparr>)))"

text \<open>
  \<^verbatim>\<open>initializeAllAccounts\<close>: each account of the configuration in its own
  \<^verbatim>\<open>try\<close>, so a failure is logged and the loop goes on. \<open>inits i\<close> is how the
  connector of the \<open>i\<close>-th account answers \<^verbatim>\<open>initialize()\<close>.
\<close>

fun initializeAllAccounts ::
  "(nat \<Rightarrow> ExchangeClient \<Rightarrow> unit promise) \<Rightarrow> nat \<Rightarrow> AccountConfig list \<Rightarrow> am_state \<Rightarrow> am_state" where
  "initializeAllAccounts inits i [] s = s"
| "initializeAllAccounts inits i (accountConfig # rest) s =
     initializeAllAccounts inits (Suc i) rest (snd (initializeAccount (inits i) s accountConfig))"

subsection \<open>Reading the configuration\<close>

definition getAvailableAccounts :: "AccountConfig list \<Rightarrow> string list" where
  "getAvailableAccounts cfg = map name cfg"

definition getAccountByName :: "AccountConfig list \<Rightarrow> string \<Rightarrow> AccountConfig option" where
  "getAccountByName cfg n = find (\<lambda>account. name account = n) cfg"

definition getAccountConfig :: "AccountConfig list \<Rightarrow> string \<Rightarrow> AccountConfig option" where
  "getAccountConfig cfg accountName = getAccountByName cfg accountName"

text \<open>
  \<^verbatim>\<open>getAllAccountConfigs\<close> assigns \<^verbatim>\<open>configs[account.name] = account\<close> in list order,
  so a later entry of the same name replaces an earlier one.
\<close>

definition getAllAccountConfigs :: "AccountConfig list \<Rightarrow> (string \<rightharpoonup> AccountConfig)" where
  "getAllAccountConfigs cfg = foldl (\<lambda>configs account. configs(name account \<mapsto> account)) Map.empty cfg"

text \<open>
  \<^verbatim>\<open>isAccountInitialized\<close> is \<^verbatim>\<open>!!exchangeClients[accountName]\<close>: a stored client,
  or an inherited value.
\<close>

definition isAccountInitialized :: "am_state \<Rightarrow> string \<Rightarrow> bool" where
  "isAccountInitialized s accountName =
    (case exchangeClients s accountName of
       Some client \<Rightarrow> True
     | None \<Rightarrow> accountName \<in> set inheritedNames)"

subsection \<open>fetchAccountData\<close>

text \<open>
  One call reads the clock twice: \<open>now_check\<close> is \<^verbatim>\<open>Date.now()\<close> in the backoff test,
  \<open>now_done\<close> is \<^verbatim>\<open>Date.now()\<close> after the awaited connector call has settled (the
  time the success or the failure is recorded). \<open>getExchangeData\<close> is what the
  connector call settles to. Nothing relates the two clock readings.
\<close>

record fetch_env =
  now_check :: int
  now_done :: int
  getExchangeData :: "ExchangeClient \<Rightarrow> ExchangeData promise"

text \<open>
  The \<^verbatim>\<open>catch\<close> block when \<^verbatim>\<open>errorCounts[accountName]\<close> holds a number or reads
  as \<^verbatim>\<open>undefined\<close>: the count goes up by one, and from the fifth failure in a row on
  the backoff time is set. \<open>now\<close> is the clock reading of the block.
\<close>

definition countFailure :: "am_state \<Rightarrow> string \<Rightarrow> int \<Rightarrow> am_state" where
  "countFailure s accountName now =
    (let count = or_zero (errorCounts s accountName) + 1;
         s1 = s\<lparr>errorCounts := (errorCounts s)(accountName \<mapsto> count)\<rparr>
     in if count \<ge> MAX_CONSECUTIVE_ERRORS then
          (let backoffTime = INITIAL_BACKOFF * 2 ^ nat (min (count - MAX_CONSECUTIVE_ERRORS) 5)
           in s1\<lparr>backoffTimes := (backoffTimes s1)(accountName \<mapsto> now + backoffTime)\<rparr>)
        else s1)"

text \<open>
  The \<^verbatim>\<open>catch\<close> block when \<^verbatim>\<open>errorCounts[accountName]\<close> reads as an inherited
  function or as a string left by an earlier call: \<^verbatim>\<open>(f || 0) + 1\<close> is then the text
  with the character \<open>1\<close> appended, which is stored; it is \<^verbatim>\<open>NaN\<close> as a number, so
  \<^verbatim>\<open>>= MAX_CONSECUTIVE_ERRORS\<close> is false and no backoff is set. Under the name
  \<open>__proto__\<close> the assignment of a string stores nothing.
\<close>

definition garbleCount :: "am_state \<Rightarrow> string \<Rightarrow> am_state" where
  "garbleCount s accountName =
    (if accountName = ''__proto__'' then s
     else s\<lparr>errorTexts := (errorTexts s)(accountName \<mapsto>
              (case errorTexts s accountName of None \<Rightarrow> 1 | Some k \<Rightarrow> Suc k))\<rparr>)"

text \<open>
  The result is the returned value (\<open>None\<close> is \<^verbatim>\<open>null\<close>), the state after the call,
  and the list of clients whose \<^verbatim>\<open>getExchangeData\<close> was invoked by the call.

  With no client stored, \<^verbatim>\<open>if (!client) return null\<close> returns for every name but
  the inherited ones. For those \<^verbatim>\<open>client\<close> is the inherited value: the backoff test
  is made, \<^verbatim>\<open>client.getExchangeData()\<close> throws a \<^verbatim>\<open>TypeError\<close> inside the
  \<^verbatim>\<open>try\<close> without any connector being called, and the \<^verbatim>\<open>catch\<close> block runs.
\<close>

definition fetchAccountData ::
  "am_state \<Rightarrow> string \<Rightarrow> fetch_env \<Rightarrow> ExchangeData option \<times> am_state \<times> ExchangeClient list" where
  "fetchAccountData s accountName env =
    (case exchangeClients s accountName of
       None \<Rightarrow>
        if accountName \<in> set inheritedNames then
          (if exceeds (backoffTimes s accountName) (now_check env) then (None, s, [])
           else
             (None,
              (case errorCounts s accountName of
                 Some c \<Rightarrow> countFailure s accountName (now_done env)
               | None \<Rightarrow> garbleCount s accountName),
              []))
        else (None, s, [])
     | Some client \<Rightarrow>
        if exceeds (backoffTimes s accountName) (now_check env) then (None, s, [])
        else
          (case getExchangeData env client of
             Resolved data \<Rightarrow>
               (Some data,
                s\<lparr>lastFetchTimes := (lastFetchTimes s)(accountName \<mapsto> now_done env),
                  errorCounts := (errorCounts s)(accountName \<mapsto> 0),
                  backoffTimes := (backoffTimes s)(accountName \<mapsto> 0)\<rparr>,
                [client])
           | Rejected err \<Rightarrow> (None, countFailure s accountName (now_done env), [client])))"

subsection \<open>getHealthStatus\<close>

text \<open>
  One entry per key of \<^verbatim>\<open>exchangeClients\<close>. The two ISO strings are kept as the
  timestamps they print; \<^verbatim>\<open>Math.round(t / 1000)\<close> of an integer \<open>t\<close> is
  \<open>(t + 500) div 1000\<close>.
\<close>

record health =
  healthy :: bool
  lastFetch :: "int option"
  timeSinceLastFetch :: "int option"
  inBackoff :: bool
  backoffEnds :: "int option"
  errorCount :: int
  config :: "AccountConfig option"

definition accountHealth :: "AccountConfig list \<Rightarrow> am_state \<Rightarrow> int \<Rightarrow> string \<Rightarrow> health" where
  "accountHealth cfg s now accountName =
    (let last = or_zero (lastFetchTimes s accountName);
         since = now - last;
         isHealthy = (last > 0 \<and> since < 60000);
         backingOff = exceeds (backoffTimes s accountName) now
     in \<lparr>healthy = isHealthy,
         lastFetch = (if last \<noteq> 0 then Some last else None),
         timeSinceLastFetch = (if last \<noteq> 0 then Some ((since + 500) div 1000) else None),
         inBackoff = backingOff,
         backoffEnds = (if backingOff then backoffTimes s accountName else None),
         errorCount = or_zero (errorCounts s accountName),
         config = getAccountConfig cfg accountName\<rparr>)"

definition getHealthStatus :: "AccountConfig list \<Rightarrow> am_state \<Rightarrow> int \<Rightarrow> (string \<rightharpoonup> health)" where
  "getHealthStatus cfg s now =
    (\<lambda>accountName. case exchangeClients s accountName of
                      None \<Rightarrow> None
                    | Some _ \<Rightarrow> Some (accountHealth cfg s now accountName))"

section \<open>dataFetcherService.ts\<close>

definition cachedData_init :: CombinedData where
  "cachedData_init = \<lparr>accounts = Map.empty, currentAccount = [], availableAccounts = [],
                      accountConfigs = Map.empty\<rparr>"

text \<open>
  The body of the loop of \<^verbatim>\<open>fetchAllAccountsData\<close> for one account name. The
  returned \<^verbatim>\<open>data\<close> is an object or \<^verbatim>\<open>null\<close>, so \<^verbatim>\<open>if (data)\<close> tests for
  \<open>Some\<close>. \<^verbatim>\<open>fetchAccountData\<close> catches every failure of the connector itself, so
  the \<^verbatim>\<open>catch\<close> of the loop has nothing to catch.
\<close>

definition fetchOne ::
  "AccountConfig list \<Rightarrow> fetch_env \<Rightarrow> string \<Rightarrow> am_state \<times> CombinedData
     \<Rightarrow> (am_state \<times> CombinedData) \<times> ExchangeClient list" where
  "fetchOne cfg env accountName st =
    (case fetchAccountData (fst st) accountName env of
       (None, s', calls) \<Rightarrow> ((s', snd st), calls)
     | (Some data, s', calls) \<Rightarrow>
         (let c1 = (snd st)\<lparr>accounts := (accounts (snd st))(accountName \<mapsto> data)\<rparr>;
              c2 = (case getAccountConfig cfg accountName of
                      None \<Rightarrow> c1
                    | Some found \<Rightarrow>
                        c1\<lparr>accountConfigs := (accountConfigs c1)(accountName \<mapsto> found)\<rparr>)
          in ((s', c2), calls)))"

text \<open>
  The loop itself. The \<open>i\<close>-th iteration of a pass runs in the environment \<open>envs i\<close>:
  its two clock readings and what the connector answers then.
\<close>

fun fetchLoop ::
  "AccountConfig list \<Rightarrow> (nat \<Rightarrow> fetch_env) \<Rightarrow> nat \<Rightarrow> string list
     \<Rightarrow> am_state \<times> CombinedData \<Rightarrow> am_state \<times> CombinedData" where
  "fetchLoop cfg envs i [] st = st"
| "fetchLoop cfg envs i (accountName # rest) st =
     fetchLoop cfg envs (Suc i) rest (fst (fetchOne cfg (envs i) accountName st))"

definition fetchAllAccountsData ::
  "AccountConfig list \<Rightarrow> (nat \<Rightarrow> fetch_env) \<Rightarrow> am_state \<times> CombinedData \<Rightarrow> am_state \<times> CombinedData" where
  "fetchAllAccountsData cfg envs st = fetchLoop cfg envs 0 (getAvailableAccounts cfg) st"

text \<open>
  \<^verbatim>\<open>setCurrentAccount\<close>: the result is the thrown error's message, if any, and the
  cache after the call.
\<close>

definition setCurrentAccount :: "CombinedData \<Rightarrow> string \<Rightarrow> string option \<times> CombinedData" where
  "setCurrentAccount cd accountName =
    (if accountName \<in> set (availableAccounts cd)
       then (None, cd\<lparr>currentAccount := accountName\<rparr>)
     else (Some (''Invalid account: '' @ accountName), cd))"

text \<open>
  \<^verbatim>\<open>startDataFetcher\<close> up to the first pass: the accounts of the configuration are
  initialised, the lists of the cache are filled from the configuration, and one pass
  runs. The timer that repeats \<^verbatim>\<open>fetchAllAccountsData\<close> afterwards is not part of
  the function's value.
\<close>

definition startDataFetcher ::
  "AccountConfig list \<Rightarrow> (nat \<Rightarrow> ExchangeClient \<Rightarrow> unit promise) \<Rightarrow> (nat \<Rightarrow> fetch_env)
     \<Rightarrow> am_state \<times> CombinedData \<Rightarrow> am_state \<times> CombinedData" where
  "startDataFetcher cfg inits envs st =
    (let s1 = initializeAllAccounts inits 0 cfg (fst st);
         c1 = (snd st)\<lparr>availableAccounts := getAvailableAccounts cfg,
                        accountConfigs := getAllAccountConfigs cfg\<rparr>;
         c2 = (case availableAccounts c1 of
                 [] \<Rightarrow> c1
               | first # _ \<Rightarrow> c1\<lparr>currentAccount := first\<rparr>)
     in fetchAllAccountsData cfg envs (s1, c2))"

section \<open>dataFetcherService.ts: getCachedData and the cache in memory\<close>

text \<open>
  Whether a caller of \<^verbatim>\<open>getCachedData\<close> can reach the objects of the cache is a
  question about references, so here the cache is an object graph in a store. A value
  is a primitive or a reference to an object of the store; an object is a list of
  properties (in insertion order) or an array; the store is the list of the objects
  allocated so far, an address being a position in it. Allocation appends.
\<close>

type_synonym addr = nat

datatype jsval = VUndefined | VNull | VBool bool | VNum number | VNonFinite | VStr string | VRef addr

datatype jsobj = OObject "(string \<times> jsval) list" | OArray "jsval list"

type_synonym heap = "jsobj list"

datatype json = JNull | JBool bool | JNum number | JStr string
  | JArr "json list" | JObj "(string \<times> json) list"

text \<open>
  \<^verbatim>\<open>JSON.stringify\<close> on plain data, with the document it writes kept as a tree:
  a property whose value is \<^verbatim>\<open>undefined\<close> is left out, an \<^verbatim>\<open>undefined\<close> array
  element and a number that is not finite are written as \<^verbatim>\<open>null\<close>. A cyclic
  structure makes \<^verbatim>\<open>JSON.stringify\<close> throw; \<open>None\<close> stands for that, for a dangling
  reference, and for a nesting of objects deeper than \<open>k\<close>. Functions, symbols,
  \<^verbatim>\<open>toJSON\<close> methods and getters are not part of the data and are not modelled.
\<close>

fun serialize :: "nat \<Rightarrow> heap \<Rightarrow> jsval \<Rightarrow> json option" where
  "serialize k h VUndefined = None"
| "serialize k h VNull = Some JNull"
| "serialize k h (VBool b) = Some (JBool b)"
| "serialize k h (VNum x) = Some (JNum x)"
| "serialize k h VNonFinite = Some JNull"
| "serialize k h (VStr s) = Some (JStr s)"
| "serialize 0 h (VRef a) = None"
| "serialize (Suc k) h (VRef a) =
    (if a < length h then
       (case h ! a of
          OArray vs \<Rightarrow>
            map_option JArr
              (those (map (\<lambda>w. if w = VUndefined then Some JNull else serialize k h w) vs))
        | OObject ps \<Rightarrow>
            map_option JObj
              (those (map (\<lambda>p. map_option (Pair (fst p)) (serialize k h (snd p)))
                       (filter (\<lambda>p. snd p \<noteq> VUndefined) ps))))
     else None)"

text \<open>
  \<^verbatim>\<open>JSON.parse\<close> of such a document: every array and every object of it is a new
  object of the store.
\<close>

fun build :: "json \<Rightarrow> heap \<Rightarrow> jsval \<times> heap"
  and build_all :: "json list \<Rightarrow> heap \<Rightarrow> jsval list \<times> heap"
  and build_fields :: "(string \<times> json) list \<Rightarrow> heap \<Rightarrow> (string \<times> jsval) list \<times> heap" where
  "build JNull h = (VNull, h)"
| "build (JBool b) h = (VBool b, h)"
| "build (JNum x) h = (VNum x, h)"
| "build (JStr s) h = (VStr s, h)"
| "build (JArr js) h =
     (case build_all js h of (vs, h1) \<Rightarrow> (VRef (length h1), h1 @ [OArray vs]))"
| "build (JObj ps) h =
     (case build_fields ps h of (fs, h1) \<Rightarrow> (VRef (length h1), h1 @ [OObject fs]))"
| "build_all [] h = ([], h)"
| "build_all (j # js) h =
     (case build j h of (v, h1) \<Rightarrow>
        (case build_all js h1 of (vs, h2) \<Rightarrow> (v # vs, h2)))"
| "build_fields [] h = ([], h)"
| "build_fields (p # ps) h =
     (case build (snd p) h of (v, h1) \<Rightarrow>
        (case build_fields ps h1 of (fs, h2) \<Rightarrow> ((fst p, v) # fs, h2)))"

text \<open>The assignment \<^verbatim>\<open>obj[key] = v\<close> on a list of properties.\<close>

fun assign :: "('k \<times> 'v) list \<Rightarrow> 'k \<Rightarrow> 'v \<Rightarrow> ('k \<times> 'v) list" where
  "assign [] key v = [(key, v)]"
| "assign (p # ps) key v = (if fst p = key then (key, v) # ps else p # assign ps key v)"

text \<open>
  \<^verbatim>\<open>getCachedData\<close>: \<open>cachedData\<close> is the address of the object the module variable
  holds (the variable is never assigned again), \<open>stamp\<close> is the ISO string of the
  clock. The result is the returned reference and the store after the call; \<open>None\<close> is
  the \<^verbatim>\<open>TypeError\<close> of \<^verbatim>\<open>JSON.stringify\<close>, or too little \<open>fuel\<close>. The code has
  no bound on the nesting; \<open>fuel\<close> is any number that is large enough for the cache at
  hand, and a larger one gives the same result.
\<close>

definition getCachedData :: "nat \<Rightarrow> heap \<Rightarrow> addr \<Rightarrow> string \<Rightarrow> (jsval \<times> heap) option" where
  "getCachedData fuel h cachedData stamp =
    (case serialize fuel h (VRef cachedData) of
       None \<Rightarrow> None
     | Some doc \<Rightarrow>
        (case build doc h of
           (VRef a, h1) \<Rightarrow>
             (case h1 ! a of
                OObject ps \<Rightarrow> Some (VRef a, h1[a := OObject (assign ps ''lastUpdate'' (VStr stamp))])
              | OArray vs \<Rightarrow> Some (VRef a, h1))
         | (data, h1) \<Rightarrow> Some (data, h1)))"

text \<open>
  \<open>plain k h v\<close>: the value \<open>v\<close> is data of the store \<open>h\<close> nested at most \<open>k\<close> objects
  deep: every reference that can be reached from it is to an object of the store, and no
  chain of references from it is longer than \<open>k\<close>, so none runs in a circle. Nothing is
  asked about where the objects lie in the store. The cache of this program is such a
  value with \<open>k = 5\<close> when the connectors return data of their declared types: the
  cache object, \<^verbatim>\<open>accounts\<close>, a snapshot, its \<^verbatim>\<open>positions\<close>, a position.
\<close>

fun plain :: "nat \<Rightarrow> heap \<Rightarrow> jsval \<Rightarrow> bool" where
  "plain 0 h (VRef a) = False"
| "plain (Suc k) h (VRef a) =
    (a < length h \<and>
     (case h ! a of
        OArray vs \<Rightarrow> list_all (plain k h) vs
      | OObject ps \<Rightarrow> list_all (\<lambda>p. plain k h (snd p)) ps))"
| "plain k h v = True"

text \<open>The nesting of arrays and objects in a document.\<close>

fun depth :: "json \<Rightarrow> nat"
  and depth_all :: "json list \<Rightarrow> nat"
  and depth_fields :: "(string \<times> json) list \<Rightarrow> nat" where
  "depth JNull = 0"
| "depth (JBool b) = 0"
| "depth (JNum x) = 0"
| "depth (JStr s) = 0"
| "depth (JArr js) = Suc (depth_all js)"
| "depth (JObj ps) = Suc (depth_fields ps)"
| "depth_all [] = 0"
| "depth_all (j # js) = max (depth j) (depth_all js)"
| "depth_fields [] = 0"
| "depth_fields (p # ps) = max (depth (snd p)) (depth_fields ps)"

text \<open>
  The addresses a value and an object refer to, and the addresses that can be reached
  from a value by following references.
\<close>

fun vrefs :: "jsval \<Rightarrow> addr set" where
  "vrefs (VRef a) = {a}"
| "vrefs v = {}"

definition orefs :: "jsobj \<Rightarrow> addr set" where
  "orefs obj = (case obj of OObject ps \<Rightarrow> (\<Union>p \<in> set ps. vrefs (snd p))
                          | OArray vs \<Rightarrow> (\<Union>v \<in> set vs. vrefs v))"

inductive reaches :: "heap \<Rightarrow> jsval \<Rightarrow> addr \<Rightarrow> bool" where
  root: "reaches h (VRef a) a"
| step: "reaches h v a \<Longrightarrow> a < length h \<Longrightarrow> b \<in> orefs (h ! a) \<Longrightarrow> reaches h v b"

text \<open>The document a read returns for the cache document \<open>doc\<close>: \<open>doc\<close> with the time stamp.\<close>

definition stamped :: "json \<Rightarrow> string \<Rightarrow> json" where
  "stamped j stamp =
    (case j of JObj ps \<Rightarrow> JObj (assign ps ''lastUpdate'' (JStr stamp)) | _ \<Rightarrow> j)"

text \<open>
  A write to an object: any assignment to a property or an element, a \<^verbatim>\<open>push\<close>, a
  \<^verbatim>\<open>delete\<close>, replaces the object at one address by an updated one.
\<close>

definition mutate :: "heap \<Rightarrow> addr \<times> jsobj \<Rightarrow> heap" where
  "mutate h w = h[fst w := snd w]"

text \<open>The objects at the addresses from \<open>n\<close> on refer to addresses from \<open>n\<close> on only.\<close>

definition closed_from :: "nat \<Rightarrow> heap \<Rightarrow> bool" where
  "closed_from n h = (\<forall>a. n \<le> a \<and> a < length h \<longrightarrow> orefs (h ! a) \<subseteq> {n..<length h})"

section \<open>routes/exchange.routes.ts: POST /accounts\<close>

text \<open>
  The fields of the request body the handler reads; \<open>None\<close> is a field the body does not
  have. \<^verbatim>\<open>!field\<close> (\<open>falsy\<close>) holds for a missing field and for the empty string.
\<close>

record accounts_body =
  body_name :: "string option"
  body_exchange :: "string option"
  body_accountType :: "string option"
  body_apiKey :: "string option"
  body_apiSecret :: "string option"
  body_baseUrl :: "string option"

definition falsy :: "string option \<Rightarrow> bool" where
  "falsy v = (case v of None \<Rightarrow> True | Some str \<Rightarrow> str = [])"

datatype payload = ErrorBody string | AddedBody string string

datatype reply = Reply nat payload

definition postAccounts ::
  "AccountConfig list \<Rightarrow> (ExchangeClient \<Rightarrow> unit promise) \<Rightarrow> am_state \<Rightarrow> accounts_body
     \<Rightarrow> reply \<times> am_state" where
  "postAccounts cfg initialize s body =
    (case (body_name body, body_exchange body, body_accountType body, body_apiKey body,
           body_apiSecret body) of
       (Some nm, Some ex, Some ty, Some key, Some secret) \<Rightarrow>
         if falsy (Some nm) \<or> falsy (Some ex) \<or> falsy (Some ty) \<or> falsy (Some key)
            \<or> falsy (Some secret)
           then (Reply 400 (ErrorBody ''Missing required fields''), s)
         else if getAccountConfig cfg nm \<noteq> None
           then (Reply 400 (ErrorBody ''Account with this name already exists''), s)
         else
           (case initializeAccount initialize s
                   \<lparr>name = nm, exchange = ex, accountType = ty, apiKey = key,
                    apiSecret = secret, baseUrl = body_baseUrl body\<rparr> of
              (Inr _, s') \<Rightarrow> (Reply 200 (AddedBody ''Account added successfully'' nm), s')
            | (Inl err, s') \<Rightarrow>
                (Reply 500 (ErrorBody (''Failed to initialize account: '' @ err)), s'))
     | _ \<Rightarrow> (Reply 400 (ErrorBody ''Missing required fields''), s))"

section \<open>The states the account manager can be in\<close>

text \<open>
  The dictionaries start empty and are written by \<^verbatim>\<open>initializeAccount\<close> and
  \<^verbatim>\<open>fetchAccountData\<close> only.
\<close>

inductive reachable :: "am_state \<Rightarrow> bool" where
  start: "reachable am_init"
| init: "reachable s \<Longrightarrow> reachable (snd (initializeAccount initialize s accountConfig))"
| fetch: "reachable s \<Longrightarrow> reachable (fst (snd (fetchAccountData s accountName env)))"

text \<open>
  The fetch-tracking state of one account: its entries in \<^verbatim>\<open>lastFetchTimes\<close>,
  \<^verbatim>\<open>errorCounts\<close> and \<^verbatim>\<open>backoffTimes\<close>.
\<close>

definition fetchState :: "am_state \<Rightarrow> string \<Rightarrow> int option \<times> int option \<times> int option" where
  "fetchState s n = (lastFetchTimes s n, errorCounts s n, backoffTimes s n)"


section \<open>Sequences of fetches\<close>

text \<open>
  The timer runs \<^verbatim>\<open>fetchAllAccountsData\<close> again and again; \<open>envss k\<close> gives the
  environments of the iterations of the \<open>k\<close>-th pass.
\<close>

fun passes ::
  "AccountConfig list \<Rightarrow> (nat \<Rightarrow> nat \<Rightarrow> fetch_env) \<Rightarrow> nat \<Rightarrow> am_state \<times> CombinedData
     \<Rightarrow> am_state \<times> CombinedData" where
  "passes cfg envss 0 st = st"
| "passes cfg envss (Suc k) st = fetchAllAccountsData cfg (envss k) (passes cfg envss k st)"

text \<open>
  What happens to the cache once the service has started: the timer runs a pass, or a
  request selects an account (a refused selection leaves the cache as it is and the
  service goes on).
\<close>

datatype event = TimerPass "nat \<Rightarrow> fetch_env" | SelectAccount string

fun serve ::
  "AccountConfig list \<Rightarrow> event list \<Rightarrow> am_state \<times> CombinedData \<Rightarrow> am_state \<times> CombinedData" where
  "serve cfg [] st = st"
| "serve cfg (TimerPass envs # rest) st = serve cfg rest (fetchAllAccountsData cfg envs st)"
| "serve cfg (SelectAccount accountName # rest) st =
     serve cfg rest (fst st, snd (setCurrentAccount (snd st) accountName))"

text \<open>
  Any sequence of loop iterations, each for some account name in some environment: what
  the passes of a process amount to over its life.
\<close>

fun fetches ::
  "AccountConfig list \<Rightarrow> (string \<times> fetch_env) list \<Rightarrow> am_state \<times> CombinedData
     \<Rightarrow> am_state \<times> CombinedData" where
  "fetches cfg [] st = st"
| "fetches cfg ((accountName, env) # rest) st =
     fetches cfg rest (fst (fetchOne cfg env accountName st))"

text \<open>
  The specification's reading of a cache entry, written from its words: the snapshot
  of the last fetch of the account that succeeded, or the entry \<open>before\<close> the sequence
  when none did.
\<close>

fun lastKnownGoodBySpec ::
  "(string \<times> fetch_env) list \<Rightarrow> am_state \<Rightarrow> string \<Rightarrow> ExchangeData option \<Rightarrow> ExchangeData option" where
  "lastKnownGoodBySpec [] s n before = before"
| "lastKnownGoodBySpec ((accountName, env) # rest) s n before =
     lastKnownGoodBySpec rest (fst (snd (fetchAccountData s accountName env))) n
       (case fst (fetchAccountData s accountName env) of
          Some data \<Rightarrow> if accountName = n then Some data else before
        | None \<Rightarrow> before)"

text \<open>
  The health rule as the specification's list of testable properties words it: a fetch
  succeeded within the last 60000 ms and no backoff is active.
\<close>

definition healthyBySpec :: "am_state \<Rightarrow> int \<Rightarrow> string \<Rightarrow> bool" where
  "healthyBySpec s now n =
    (or_zero (lastFetchTimes s n) > 0 \<and> now - or_zero (lastFetchTimes s n) < 60000
     \<and> \<not> exceeds (backoffTimes s n) now)"

text \<open>
  \<open>untouched n st st'\<close>: between the two states of the services nothing stored under the
  account name \<open>n\<close> differs: its client, its fetch-tracking state (a string in
  \<^verbatim>\<open>errorCounts\<close> included), its cache entry.
\<close>

definition untouched :: "string \<Rightarrow> am_state \<times> CombinedData \<Rightarrow> am_state \<times> CombinedData \<Rightarrow> bool" where
  "untouched n st st' =
    (exchangeClients (fst st') n = exchangeClients (fst st) n \<and>
     fetchState (fst st') n = fetchState (fst st) n \<and>
     errorTexts (fst st') n = errorTexts (fst st) n \<and>
     accounts (snd st') n = accounts (snd st) n)"

section \<open>Sample inputs\<close>

definition acctA :: AccountConfig where
  "acctA = \<lparr>name = ''A'', exchange = ''binance'', accountType = ''futures'',
            apiKey = ''keyA'', apiSecret = ''secretA'', baseUrl = None\<rparr>"

definition acctB :: AccountConfig where
  "acctB = \<lparr>name = ''B'', exchange = ''bybit'', accountType = ''unified'',
            apiKey = ''keyB'', apiSecret = ''secretB'', baseUrl = None\<rparr>"

definition clientA :: ExchangeClient where
  "clientA = BinanceClient FUTURES ''keyA'' ''secretA'' None"

definition clientB :: ExchangeClient where
  "clientB = BybitClient ''keyB'' ''secretB'' None"

definition snapshot :: "string \<Rightarrow> number \<Rightarrow> ExchangeData" where
  "snapshot acct bal =
    \<lparr>positions = [],
     accountSummary =
       \<lparr>exchange_s = ''binance'', accountName_s = acct, accountType_s = ''futures'',
        baseCurrency = ''USDT'', baseBalance = bal, totalNotionalValue = 0,
        accountLeverage = 0, openPositionsCount = 0, openOrdersCount = 0,
        liquidationBuffer = 100, accountMarginRatio = 0\<rparr>\<rparr>"

definition answers :: "int \<Rightarrow> ExchangeData promise \<Rightarrow> fetch_env" where
  "answers t r = \<lparr>now_check = t, now_done = t + 1, getExchangeData = (\<lambda>_. r)\<rparr>"

definition connects :: "ExchangeClient \<Rightarrow> unit promise" where
  "connects client = Resolved ()"

definition amA :: am_state where
  "amA = snd (initializeAccount connects am_init acctA)"

definition amAB :: am_state where
  "amAB = snd (initializeAccount connects amA acctB)"

text \<open>\<open>failing k t s n\<close>: \<open>k\<close> failed fetches of \<open>n\<close> in a row, the first at time \<open>t\<close>, one a second.\<close>

fun failing :: "nat \<Rightarrow> int \<Rightarrow> am_state \<Rightarrow> string \<Rightarrow> am_state" where
  "failing 0 t s n = s"
| "failing (Suc k) t s n =
     failing k (t + 1000) (fst (snd (fetchAccountData s n (answers t (Rejected ''timeout''))))) n"

text \<open>
  Caches, a state with a fresh snapshot and an active backoff, request bodies for
  \<^verbatim>\<open>POST /accounts\<close>, and a started service.
\<close>

definition cacheA :: CombinedData where
  "cacheA = cachedData_init\<lparr>accounts := [''A'' \<mapsto> snapshot ''A'' 10]\<rparr>"

definition cacheB :: CombinedData where
  "cacheB = cachedData_init\<lparr>accounts := [''B'' \<mapsto> snapshot ''B'' 5]\<rparr>"

definition oneGoodOneBad :: "nat \<Rightarrow> fetch_env" where
  "oneGoodOneBad i =
    (if i = 0 then answers 1000 (Resolved (snapshot ''A'' 10))
     else answers 2000 (Rejected ''timeout''))"

definition amDegraded :: am_state where
  "amDegraded =
    failing 5 2000 (fst (snd (fetchAccountData amA ''A'' (answers 1000 (Resolved (snapshot ''A'' 10))))))
      ''A''"

definition addX :: "string \<Rightarrow> accounts_body" where
  "addX key =
    \<lparr>body_name = Some ''X'', body_exchange = Some ''binance'', body_accountType = Some ''futures'',
     body_apiKey = Some key, body_apiSecret = Some ''secretX'', body_baseUrl = None\<rparr>"

definition started :: "am_state \<times> CombinedData" where
  "started =
    startDataFetcher [acctA] (\<lambda>i. connects) (\<lambda>i. answers 1000 (Resolved (snapshot ''A'' 10)))
      (am_init, cachedData_init)"

text \<open>The same service when the exchange refuses the credentials of \<open>A\<close> at start-up.\<close>

definition refuses :: "ExchangeClient \<Rightarrow> unit promise" where
  "refuses client = Rejected ''Invalid API-key''"

definition startedWithoutA :: "am_state \<times> CombinedData" where
  "startedWithoutA =
    startDataFetcher [acctA] (\<lambda>i. refuses) (\<lambda>i. answers 1000 (Resolved (snapshot ''A'' 10)))
      (am_init, cachedData_init)"

text \<open>
  A configuration whose one account is named \<open>constructor\<close>, and the service started with
  it when the exchange refuses its credentials.
\<close>

definition acctCtor :: AccountConfig where
  "acctCtor = \<lparr>name = ''constructor'', exchange = ''binance'', accountType = ''futures'',
               apiKey = ''keyC'', apiSecret = ''secretC'', baseUrl = None\<rparr>"

definition startedCtor :: "am_state \<times> CombinedData" where
  "startedCtor =
    startDataFetcher [acctCtor] (\<lambda>i. refuses) (\<lambda>i. answers 1000 (Resolved (snapshot ''A'' 10)))
      (am_init, cachedData_init)"

text \<open>
  A cache in the store as the running service has it: the cache object was allocated
  first, at address \<open>0\<close>, and the snapshot it holds later. Then the document the cache
  holds, the store after one read, and two writes to objects of the returned copy.
\<close>

definition sampleHeap :: heap where
  "sampleHeap =
    [OObject [(''accounts'', VRef 1), (''currentAccount'', VStr ''A''),
              (''availableAccounts'', VRef 2), (''accountConfigs'', VRef 3)],
     OObject [(''A'', VRef 6)],
     OArray [VStr ''A''],
     OObject [],
     OArray [],
     OObject [(''baseCurrency'', VStr ''USDT''), (''baseBalance'', VNum 10)],
     OObject [(''positions'', VRef 4), (''accountSummary'', VRef 5)]]"

definition sampleDoc :: json where
  "sampleDoc =
    JObj [(''accounts'',
            JObj [(''A'',
                    JObj [(''positions'', JArr []),
                          (''accountSummary'',
                            JObj [(''baseCurrency'', JStr ''USDT''), (''baseBalance'', JNum 10)])])]),
          (''currentAccount'', JStr ''A''),
          (''availableAccounts'', JArr [JStr ''A'']),
          (''accountConfigs'', JObj [])]"

definition sampleRead :: heap where
  "sampleRead =
    sampleHeap @
    [OArray [],
     OObject [(''baseCurrency'', VStr ''USDT''), (''baseBalance'', VNum 10)],
     OObject [(''positions'', VRef 7), (''accountSummary'', VRef 8)],
     OObject [(''A'', VRef 9)],
     OArray [VStr ''A''],
     OObject [],
     OObject [(''accounts'', VRef 10), (''currentAccount'', VStr ''A''),
              (''availableAccounts'', VRef 11), (''accountConfigs'', VRef 12),
              (''lastUpdate'', VStr ''t1'')]]"

definition sampleEdits :: "(addr \<times> jsobj) list" where
  "sampleEdits =
    [(8, OObject [(''baseCurrency'', VStr ''USDT''), (''baseBalance'', VNum 0)]),
     (11, OArray [])]"

section \<open>Basic facts about one fetch\<close>

lemmas sample_defs = amA_def amAB_def initializeAccount_def makeClient_def acctA_def acctB_def
  connects_def am_init_def answers_def clientA_def clientB_def

lemmas run_defs = fetchAccountData_def countFailure_def exceeds_def or_zero_def Let_def
  MAX_CONSECUTIVE_ERRORS_def INITIAL_BACKOFF_def

lemma garbleCount_keeps:
  "exchangeClients (garbleCount s a) = exchangeClients s"
  "lastFetchTimes (garbleCount s a) = lastFetchTimes s"
  "errorCounts (garbleCount s a) = errorCounts s"
  "backoffTimes (garbleCount s a) = backoffTimes s"
  by (simp_all add: garbleCount_def)

lemma garbleCount_frame: "n \<noteq> a \<Longrightarrow> errorTexts (garbleCount s a) n = errorTexts s n"
  by (simp add: garbleCount_def)

lemma countFailure_keeps:
  "exchangeClients (countFailure s a t) = exchangeClients s"
  "lastFetchTimes (countFailure s a t) = lastFetchTimes s"
  "errorTexts (countFailure s a t) = errorTexts s"
  "errorCounts (countFailure s a t) = (errorCounts s)(a \<mapsto> or_zero (errorCounts s a) + 1)"
  by (simp_all add: countFailure_def Let_def)

lemma countFailure_frame: "n \<noteq> a \<Longrightarrow> backoffTimes (countFailure s a t) n = backoffTimes s n"
  by (simp add: countFailure_def Let_def)

lemma countFailure_local:
  "fetchState s1 n = fetchState s2 n \<Longrightarrow>
     fetchState (countFailure s1 n t) n = fetchState (countFailure s2 n t) n"
  by (simp add: countFailure_def Let_def fetchState_def)

lemma fetchAccountData_keeps_clients:
  "exchangeClients (fst (snd (fetchAccountData s a env))) = exchangeClients s"
  by (simp add: fetchAccountData_def countFailure_keeps garbleCount_keeps
      split: option.splits promise.splits)

lemma fetchAccountData_frame:
  "n \<noteq> a \<Longrightarrow> fetchState (fst (snd (fetchAccountData s a env))) n = fetchState s n"
  by (simp add: fetchAccountData_def fetchState_def countFailure_keeps countFailure_frame
      garbleCount_keeps split: option.splits promise.splits)

lemma fetchAccountData_frame_texts:
  "n \<noteq> a \<Longrightarrow> errorTexts (fst (snd (fetchAccountData s a env))) n = errorTexts s n"
  by (simp add: fetchAccountData_def countFailure_keeps garbleCount_frame
      split: option.splits promise.splits)

lemma no_client_fetch:
  "exchangeClients s n = None \<Longrightarrow> n \<notin> set inheritedNames \<Longrightarrow>
     fetchAccountData s n env = (None, s, [])"
  by (simp add: fetchAccountData_def)

lemma fetchOne_am:
  "fst (fst (fetchOne cfg env a st)) = fst (snd (fetchAccountData (fst st) a env))"
  by (simp add: fetchOne_def Let_def split: prod.splits option.splits)

lemma fetchOne_cache:
  "accounts (snd (fst (fetchOne cfg env a st))) =
     (case fst (fetchAccountData (fst st) a env) of
        None \<Rightarrow> accounts (snd st)
      | Some d \<Rightarrow> (accounts (snd st))(a \<mapsto> d))"
  by (simp add: fetchOne_def Let_def split: prod.splits option.splits)

lemma fetchOne_null:
  "fst (fetchAccountData (fst st) a env) = None \<Longrightarrow>
     snd (fst (fetchOne cfg env a st)) = snd st"
  by (auto simp: fetchOne_def Let_def split: prod.splits option.splits)

section \<open>The invariant of the tracking state\<close>






lemma reachable_failing: "reachable s \<Longrightarrow> reachable (failing k t s n)"
  by (induction k arbitrary: t s) (auto intro: reachable.fetch)

lemma reachable_amA: "reachable amA"
  unfolding amA_def by (intro reachable.init reachable.start)

lemma clients_failing: "exchangeClients (failing k t s n) = exchangeClients s"
  by (induction k arbitrary: t s) (simp_all add: fetchAccountData_keeps_clients)


lemma failing5: "fetchState (failing 5 1000 amA ''A'') ''A'' = (Some 0, Some 5, Some 35001)"
  by (simp add: eval_nat_numeral sample_defs run_defs fetchState_def)

section \<open>Failure counting and backoff\<close>



section \<open>A successful fetch\<close>

text \<open>
  Claim C2. Whatever the state before (any error count, any backoff time that has
  run out), a fetch of an initialised account that is attempted and whose connector
  call returns the snapshot \<open>d\<close> returns \<open>d\<close>, sets the account's last fetch time to the
  clock reading taken after the call, sets its error count and its backoff time to \<open>0\<close>,
  and the loop of \<^verbatim>\<open>fetchAllAccountsData\<close> stores \<open>d\<close> in the cache under the
  account's name.
\<close>

theorem successful_fetch_resets:
  assumes "exchangeClients s n = Some client"
    and "\<not> exceeds (backoffTimes s n) (now_check env)"
    and "getExchangeData env client = Resolved d"
  shows "\<exists>s' cd'. fetchAccountData s n env = (Some d, s', [client]) \<and>
     fetchOne cfg env n (s, cd) = ((s', cd'), [client]) \<and>
     lastFetchTimes s' n = Some (now_done env) \<and>
     errorCounts s' n = Some 0 \<and>
     backoffTimes s' n = Some 0 \<and>
     accounts cd' n = Some d"
  using assms
  by (simp add: fetchAccountData_def fetchOne_def Let_def split: option.splits)

theorem successful_fetch_witness:
  "fetchState (failing 5 1000 amA ''A'') ''A'' = (Some 0, Some 5, Some 35001) \<and>
   fetchState (fst (fst (fetchOne [acctA] (answers 40000 (Resolved (snapshot ''A'' 10))) ''A''
       (failing 5 1000 amA ''A'', cachedData_init)))) ''A'' = (Some 40001, Some 0, Some 0) \<and>
   accounts (snd (fst (fetchOne [acctA] (answers 40000 (Resolved (snapshot ''A'' 10))) ''A''
       (failing 5 1000 amA ''A'', cachedData_init)))) ''A'' = Some (snapshot ''A'' 10)"
proof -
  have c: "exchangeClients (failing 5 1000 amA ''A'') ''A'' = Some clientA"
    by (simp add: clients_failing sample_defs)
  have b: "\<not> exceeds (backoffTimes (failing 5 1000 amA ''A'') ''A'')
              (now_check (answers 40000 (Resolved (snapshot ''A'' 10))))"
    using failing5 by (simp add: fetchState_def exceeds_def answers_def)
  have g: "getExchangeData (answers 40000 (Resolved (snapshot ''A'' 10))) clientA
             = Resolved (snapshot ''A'' 10)"
    by (simp add: answers_def)
  from successful_fetch_resets [OF c b g, of "[acctA]" cachedData_init] failing5
  show ?thesis by (auto simp: fetchState_def answers_def)
qed

section \<open>A fetch during backoff\<close>

text \<open>
  Claim C3. While the backoff time of an account is later than the clock reading of the
  test, a fetch of that account returns \<^verbatim>\<open>null\<close> without calling the connector (the
  list of invoked clients is empty, and the result does not depend on what the connector
  would answer), and neither the state of the account manager nor the cache changes.
\<close>

theorem backoff_skips_fetch:
  assumes "exceeds (backoffTimes s n) (now_check env)"
  shows "fetchAccountData s n env = (None, s, []) \<and>
         fetchOne cfg env n (s, cd) = ((s, cd), [])"
  using assms
  by (simp add: fetchAccountData_def fetchOne_def split: option.splits)

theorem backoff_skips_witness:
  "exceeds (backoffTimes (failing 5 1000 amA ''A'') ''A'') 6000 \<and>
   fetchOne [acctA] (answers 6000 (Resolved (snapshot ''A'' 10))) ''A''
       (failing 5 1000 amA ''A'', cachedData_init)
     = ((failing 5 1000 amA ''A'', cachedData_init), [])"
proof -
  have b: "exceeds (backoffTimes (failing 5 1000 amA ''A'') ''A'')
              (now_check (answers 6000 (Resolved (snapshot ''A'' 10))))"
    using failing5 by (simp add: fetchState_def exceeds_def answers_def)
  from backoff_skips_fetch [OF b, of "[acctA]" cachedData_init] b
  show ?thesis by (simp add: answers_def)
qed

section \<open>Accounts without a client\<close>

lemma fetchOne_untouched_other:
  "a \<noteq> n \<Longrightarrow> untouched n st (fst (fetchOne cfg env a st))"
  by (simp add: untouched_def fetchOne_am fetchOne_cache fetchAccountData_keeps_clients
      fetchAccountData_frame fetchAccountData_frame_texts split: option.splits)

lemma fetchOne_untouched_no_client:
  "exchangeClients (fst st) n = None \<Longrightarrow> n \<notin> set inheritedNames \<Longrightarrow>
     untouched n st (fst (fetchOne cfg env n st))"
  by (simp add: untouched_def fetchOne_am fetchOne_cache no_client_fetch)

lemma untouched_trans: "untouched n a b \<Longrightarrow> untouched n b c \<Longrightarrow> untouched n a c"
  by (simp add: untouched_def)

lemma fetchLoop_no_client:
  "exchangeClients (fst st) n = None \<Longrightarrow> n \<notin> set inheritedNames \<Longrightarrow>
     untouched n st (fetchLoop cfg envs i names st)"
proof (induction names arbitrary: i st)
  case Nil
  then show ?case by (simp add: untouched_def)
next
  case (Cons a names)
  have step: "untouched n st (fst (fetchOne cfg (envs i) a st))"
    using Cons.prems
    by (cases "a = n") (simp_all add: fetchOne_untouched_other fetchOne_untouched_no_client)
  then have "exchangeClients (fst (fst (fetchOne cfg (envs i) a st))) n = None"
    using Cons.prems by (simp add: untouched_def)
  from Cons.IH [OF this Cons.prems(2)] step show ?case
    by (auto intro: untouched_trans)
qed

lemma passes_no_client:
  "exchangeClients (fst st) n = None \<Longrightarrow> n \<notin> set inheritedNames \<Longrightarrow>
     untouched n st (passes cfg envss k st)"
proof (induction k)
  case 0
  then show ?case by (simp add: untouched_def)
next
  case (Suc k)
  then have u: "untouched n st (passes cfg envss k st)" by simp
  then have "exchangeClients (fst (passes cfg envss k st)) n = None"
    using Suc.prems by (simp add: untouched_def)
  then have "untouched n (passes cfg envss k st) (passes cfg envss (Suc k) st)"
    using Suc.prems(2) by (simp add: fetchAllAccountsData_def fetchLoop_no_client)
  with u show ?case by (rule untouched_trans)
qed

text \<open>
  For an account name with no stored client that is not the name of an inherited
  property, \<^verbatim>\<open>fetchAccountData\<close> returns \<^verbatim>\<open>null\<close>, calls no connector and leaves
  the whole state as it is, and the loop leaves the cache as it is. After any number \<open>k\<close>
  of passes, whatever happens to the other accounts, the name still has no client, its
  fetch-tracking state is the one it started with (no error is counted, no backoff is
  set), and so is its cache entry.
\<close>

lemma uninitialised_account_is_inert:
  assumes "exchangeClients s n = None" and "n \<notin> set inheritedNames"
  shows "fetchAccountData s n env = (None, s, []) \<and>
         fetchOne cfg env n (s, cd) = ((s, cd), []) \<and>
         exchangeClients (fst (passes cfg envss k (s, cd))) n = None \<and>
         fetchState (fst (passes cfg envss k (s, cd))) n = fetchState s n \<and>
         errorTexts (fst (passes cfg envss k (s, cd))) n = errorTexts s n \<and>
         accounts (snd (passes cfg envss k (s, cd))) n = accounts cd n"
  using assms passes_no_client [of "(s, cd)" n cfg envss k]
  by (simp add: no_client_fetch fetchOne_def untouched_def)

lemma uninitialised_account_example:
  "exchangeClients amA ''B'' = None \<and>
   fetchAccountData amA ''B'' (answers 1000 (Rejected ''timeout'')) = (None, amA, []) \<and>
   fetchState (fst (passes [acctA, acctB] (\<lambda>k i. answers (40000 * int k) (Rejected ''timeout''))
       7 (amA, cachedData_init))) ''B'' = (None, None, None) \<and>
   accounts (snd (passes [acctA, acctB] (\<lambda>k i. answers (40000 * int k) (Rejected ''timeout''))
       7 (amA, cachedData_init))) ''B'' = None"
proof -
  have c: "exchangeClients amA ''B'' = None"
    by (simp add: sample_defs)
  have i: "''B'' \<notin> set inheritedNames"
    by (simp add: inheritedNames_def)
  from uninitialised_account_is_inert [OF c i, of "answers 1000 (Rejected ''timeout'')"
      "[acctA, acctB]" cachedData_init "\<lambda>k i. answers (40000 * int k) (Rejected ''timeout'')" 7] c
  show ?thesis by (simp add: fetchState_def sample_defs cachedData_init_def)
qed

text \<open>
  The other inherited names apart, \<open>__proto__\<close> too is inert while it has no client and no
  counter: the string the \<^verbatim>\<open>catch\<close> block assigns under it is not stored.
\<close>

lemma proto_without_client_is_inert:
  "exchangeClients s ''__proto__'' = None \<Longrightarrow> errorCounts s ''__proto__'' = None \<Longrightarrow>
     fetchAccountData s ''__proto__'' env = (None, s, [])"
  by (simp add: fetchAccountData_def garbleCount_def)

text \<open>
  Claim C10 is what the early return \<^verbatim>\<open>if (!client) return null\<close> is there for, and
  the code misses it for the names every object inherits a property for. The
  configuration lists one account, named \<open>constructor\<close>, and the exchange refuses its
  credentials at start-up, so no client is stored for it. The first pass does not return
  early for it: it leaves the string
  \<^verbatim>\<open>function Object() { [native code] }1\<close> in \<^verbatim>\<open>errorCounts\<close>, and every further
  pass appends another \<open>1\<close>. The call still returns \<^verbatim>\<open>null\<close>, calls no connector, and
  never sets a backoff.
\<close>

theorem inherited_name_is_not_inert:
  "exchangeClients (fst startedCtor) ''constructor'' = None \<and>
   fst startedCtor = am_init\<lparr>errorTexts := [''constructor'' \<mapsto> 1]\<rparr> \<and>
   errorText ''constructor'' 1 = ''function Object() { [native code] }1'' \<and>
   fetchAccountData (fst startedCtor) ''constructor'' (answers 41000 (Resolved (snapshot ''A'' 10)))
     = (None, am_init\<lparr>errorTexts := [''constructor'' \<mapsto> 2]\<rparr>, []) \<and>
   fst (passes [acctCtor] (\<lambda>k i. answers (41000 + 40000 * int k) (Resolved (snapshot ''A'' 10)))
          3 startedCtor)
     = am_init\<lparr>errorTexts := [''constructor'' \<mapsto> 4]\<rparr> \<and>
   snd (passes [acctCtor] (\<lambda>k i. answers (41000 + 40000 * int k) (Resolved (snapshot ''A'' 10)))
          3 startedCtor)
     = snd startedCtor"
  by (simp add: startedCtor_def acctCtor_def startDataFetcher_def fetchAllAccountsData_def
      getAvailableAccounts_def initializeAccount_def makeClient_def refuses_def Let_def
      fetchOne_def fetchAccountData_def garbleCount_def inheritedNames_def exceeds_def
      am_init_def errorText_def inheritedText_def eval_nat_numeral answers_def)

section \<open>Failed fetches and the cache\<close>

lemma fetch_success:
  assumes "exchangeClients s n = Some client"
    and "\<not> exceeds (backoffTimes s n) (now_check env)"
    and "getExchangeData env client = Resolved d"
  shows "fetchAccountData s n env =
    (Some d,
     s\<lparr>lastFetchTimes := (lastFetchTimes s)(n \<mapsto> now_done env),
       errorCounts := (errorCounts s)(n \<mapsto> 0),
       backoffTimes := (backoffTimes s)(n \<mapsto> 0)\<rparr>,
     [client])"
  using assms by (simp add: fetchAccountData_def)

lemma fetch_failure:
  assumes "exchangeClients s n = Some client"
    and "\<not> exceeds (backoffTimes s n) (now_check env)"
    and "getExchangeData env client = Rejected err"
  shows "\<exists>s'. fetchAccountData s n env = (None, s', [client]) \<and>
     exchangeClients s' = exchangeClients s \<and>
     lastFetchTimes s' = lastFetchTimes s \<and>
     errorCounts s' = (errorCounts s)(n \<mapsto> or_zero (errorCounts s n) + 1) \<and>
     (\<forall>m. m \<noteq> n \<longrightarrow> backoffTimes s' m = backoffTimes s m)"
  using assms by (simp add: fetchAccountData_def countFailure_keeps countFailure_frame)

lemma fetches_lastGood:
  "accounts (snd (fetches cfg es (s, cd))) n = lastKnownGoodBySpec es s n (accounts cd n)"
proof (induction es arbitrary: s cd)
  case Nil
  then show ?case by simp
next
  case (Cons e es)
  obtain a env where e: "e = (a, env)" by (cases e)
  obtain s' cd' where step: "fst (fetchOne cfg env a (s, cd)) = (s', cd')"
    by (cases "fst (fetchOne cfg env a (s, cd))")
  have s': "s' = fst (snd (fetchAccountData s a env))"
    using fetchOne_am [of cfg env a "(s, cd)"] step by simp
  have cd': "accounts cd' n =
      (case fst (fetchAccountData s a env) of
         Some d \<Rightarrow> if a = n then Some d else accounts cd n
       | None \<Rightarrow> accounts cd n)"
    using fetchOne_cache [of cfg env a "(s, cd)"] step by (simp split: option.splits)
  show ?case
    using Cons.IH [of s' cd'] by (simp add: e step s' cd')
qed

text \<open>
  Claim C6. A fetch of an account that is attempted and whose connector call throws
  leaves the whole cache as it was, so the entry of the account is still the snapshot
  stored last, or still missing. Over any further fetches \<open>es\<close> the entry of the account
  is the snapshot of the last of them that succeeded for it and, when none does, the
  entry from before the failure: no failure ever clears or replaces an entry.
\<close>

theorem failed_fetch_keeps_cache:
  assumes "exchangeClients s n = Some client"
    and "\<not> exceeds (backoffTimes s n) (now_check env)"
    and "getExchangeData env client = Rejected err"
  shows "\<exists>s'. fetchOne cfg env n (s, cd) = ((s', cd), [client]) \<and>
     (\<forall>es. accounts (snd (fetches cfg ((n, env) # es) (s, cd))) n
            = lastKnownGoodBySpec es s' n (accounts cd n))"
proof -
  from fetch_failure [OF assms] obtain s' where
    f: "fetchAccountData s n env = (None, s', [client])" by blast
  then have one: "fetchOne cfg env n (s, cd) = ((s', cd), [client])"
    by (simp add: fetchOne_def)
  then show ?thesis by (simp add: fetches_lastGood)
qed

theorem failed_fetch_keeps_cache_witness:
  "snd (fst (fetchOne [acctA] (answers 5000 (Rejected ''timeout'')) ''A'' (amA, cacheA))) = cacheA \<and>
   accounts (snd (fetches [acctA]
       [(''A'', answers 5000 (Rejected ''timeout'')), (''A'', answers 45000 (Rejected ''timeout''))]
       (amA, cacheA))) ''A'' = Some (snapshot ''A'' 10)"
proof -
  have c: "exchangeClients amA ''A'' = Some clientA" by (simp add: sample_defs)
  have b: "\<not> exceeds (backoffTimes amA ''A'') (now_check (answers 5000 (Rejected ''timeout'')))"
    by (simp add: sample_defs exceeds_def)
  have g: "getExchangeData (answers 5000 (Rejected ''timeout'')) clientA = Rejected ''timeout''"
    by (simp add: answers_def)
  from failed_fetch_keeps_cache [OF c b g, of "[acctA]" cacheA]
  obtain s' where one: "fetchOne [acctA] (answers 5000 (Rejected ''timeout'')) ''A'' (amA, cacheA)
        = ((s', cacheA), [clientA])"
    and seq: "\<And>es. accounts (snd (fetches [acctA] ((''A'', answers 5000 (Rejected ''timeout'')) # es)
               (amA, cacheA))) ''A'' = lastKnownGoodBySpec es s' ''A'' (accounts cacheA ''A'')"
    by blast
  have "lastKnownGoodBySpec [(''A'', answers 45000 (Rejected ''timeout''))] s' ''A'' (accounts cacheA ''A'')
          = accounts cacheA ''A''"
    by (simp add: fetchAccountData_def countFailure_def garbleCount_def answers_def Let_def
        split: option.splits)
  with one seq [of "[(''A'', answers 45000 (Rejected ''timeout''))]"] show ?thesis
    by (simp add: cacheA_def)
qed

section \<open>One pass over two accounts\<close>

text \<open>
  What an iteration of the loop for the name \<open>a\<close> leaves under \<open>a\<close>, and which connector it
  calls, depends only on what was stored under \<open>a\<close> before.
\<close>

lemma fetchAccountData_local:
  assumes "exchangeClients s1 n = exchangeClients s2 n" and "fetchState s1 n = fetchState s2 n"
  shows "fst (fetchAccountData s1 n env) = fst (fetchAccountData s2 n env) \<and>
         snd (snd (fetchAccountData s1 n env)) = snd (snd (fetchAccountData s2 n env)) \<and>
         fetchState (fst (snd (fetchAccountData s1 n env))) n
           = fetchState (fst (snd (fetchAccountData s2 n env))) n"
proof -
  from assms have e: "errorCounts s1 n = errorCounts s2 n" and b: "backoffTimes s1 n = backoffTimes s2 n"
    by (simp_all add: fetchState_def)
  have g: "fetchState (garbleCount s1 n) n = fetchState (garbleCount s2 n) n"
    using assms(2) by (simp add: fetchState_def garbleCount_keeps)
  show ?thesis
    using assms e b g countFailure_local [OF assms(2), of "now_done env"]
    by (simp add: fetchAccountData_def split: option.splits promise.splits)
      (simp add: fetchState_def)
qed

lemma fetchOne_local:
  assumes "untouched a st1 st2"
  shows "fetchState (fst (fst (fetchOne cfg env a st2))) a
           = fetchState (fst (fst (fetchOne cfg env a st1))) a \<and>
         accounts (snd (fst (fetchOne cfg env a st2))) a
           = accounts (snd (fst (fetchOne cfg env a st1))) a \<and>
         snd (fetchOne cfg env a st2) = snd (fetchOne cfg env a st1)"
proof -
  from assms have c: "exchangeClients (fst st2) a = exchangeClients (fst st1) a"
    and f: "fetchState (fst st2) a = fetchState (fst st1) a"
    and e: "accounts (snd st2) a = accounts (snd st1) a"
    by (simp_all add: untouched_def)
  note l = fetchAccountData_local [OF c f, of env]
  have calls: "snd (fetchOne cfg env a st) = snd (snd (fetchAccountData (fst st) a env))" for st
    by (simp add: fetchOne_def Let_def split: prod.splits option.splits)
  show ?thesis
    using l e by (simp add: fetchOne_am fetchOne_cache calls split: option.splits)
qed

lemma two_iterations:
  assumes "X \<noteq> Y"
  shows "fetchState (fst (fetchLoop cfg envs 0 [X, Y] st)) X
           = fetchState (fst (fst (fetchOne cfg (envs 0) X st))) X \<and>
         accounts (snd (fetchLoop cfg envs 0 [X, Y] st)) X
           = accounts (snd (fst (fetchOne cfg (envs 0) X st))) X \<and>
         fetchState (fst (fetchLoop cfg envs 0 [X, Y] st)) Y
           = fetchState (fst (fst (fetchOne cfg (envs (Suc 0)) Y st))) Y \<and>
         accounts (snd (fetchLoop cfg envs 0 [X, Y] st)) Y
           = accounts (snd (fst (fetchOne cfg (envs (Suc 0)) Y st))) Y \<and>
         (\<forall>n. n \<noteq> X \<and> n \<noteq> Y \<longrightarrow> untouched n st (fetchLoop cfg envs 0 [X, Y] st))"
proof -
  let ?st1 = "fst (fetchOne cfg (envs 0) X st)"
  let ?st2 = "fst (fetchOne cfg (envs (Suc 0)) Y ?st1)"
  have loop: "fetchLoop cfg envs 0 [X, Y] st = ?st2" by simp
  have uY: "untouched Y st ?st1" using assms by (simp add: fetchOne_untouched_other)
  have uX: "untouched X ?st1 ?st2" using assms by (simp add: fetchOne_untouched_other)
  have others: "untouched n st ?st2" if "n \<noteq> X" "n \<noteq> Y" for n
    using that fetchOne_untouched_other [of X n st cfg "envs 0"]
      fetchOne_untouched_other [of Y n ?st1 cfg "envs (Suc 0)"]
    by (auto intro: untouched_trans)
  show ?thesis
    unfolding loop using uX fetchOne_local [OF uY, of cfg "envs (Suc 0)"] others
    by (simp add: untouched_def)
qed

lemma fetchOne_success:
  assumes "exchangeClients s n = Some client"
    and "\<not> exceeds (backoffTimes s n) (now_check env)"
    and "getExchangeData env client = Resolved d"
  shows "fetchState (fst (fst (fetchOne cfg env n (s, cd)))) n = (Some (now_done env), Some 0, Some 0)"
    and "accounts (snd (fst (fetchOne cfg env n (s, cd)))) n = Some d"
  using fetch_success [OF assms]
  by (simp_all add: fetchOne_am fetchOne_cache fetchState_def)

lemma fetchOne_failure:
  assumes "exchangeClients s n = Some client"
    and "\<not> exceeds (backoffTimes s n) (now_check env)"
    and "getExchangeData env client = Rejected err"
  shows "errorCounts (fst (fst (fetchOne cfg env n (s, cd)))) n = Some (or_zero (errorCounts s n) + 1)"
    and "lastFetchTimes (fst (fst (fetchOne cfg env n (s, cd)))) n = lastFetchTimes s n"
    and "accounts (snd (fst (fetchOne cfg env n (s, cd)))) n = accounts cd n"
  using fetch_failure [OF assms]
  by (auto simp: fetchOne_am fetchOne_cache)

text \<open>
  Claim C8. One pass over the two accounts \<open>A\<close> and \<open>B\<close> of the configuration, in either
  order (\<open>iA\<close> and \<open>iB\<close> are the positions of their iterations), in which the fetch of
  \<open>A\<close> succeeds with the snapshot \<open>d\<close> and the fetch of \<open>B\<close> fails: the cache entry of
  \<open>A\<close> becomes \<open>d\<close> and the entry of \<open>B\<close> is what it was; the error count of \<open>B\<close> goes up
  by one and its last fetch time stays; \<open>A\<close> gets the clock reading as its last fetch
  time and \<open>0\<close> as its error count and backoff time. The tracking state each of the two
  ends with is the one its own fetch alone produces from the starting state, whatever
  the other fetch did, and nothing stored under any third name changes.
\<close>

theorem pass_over_two_accounts:
  assumes order: "getAvailableAccounts cfg = [A, B] \<and> iA = 0 \<and> iB = Suc 0 \<or>
                  getAvailableAccounts cfg = [B, A] \<and> iB = 0 \<and> iA = Suc 0"
    and ne: "A \<noteq> B"
    and cA: "exchangeClients s A = Some clA" and cB: "exchangeClients s B = Some clB"
    and bA: "\<not> exceeds (backoffTimes s A) (now_check (envs iA))"
    and bB: "\<not> exceeds (backoffTimes s B) (now_check (envs iB))"
    and gA: "getExchangeData (envs iA) clA = Resolved d"
    and gB: "getExchangeData (envs iB) clB = Rejected err"
  shows "\<exists>s' cd'. fetchAllAccountsData cfg envs (s, cd) = (s', cd') \<and>
     accounts cd' A = Some d \<and>
     accounts cd' B = accounts cd B \<and>
     fetchState s' A = (Some (now_done (envs iA)), Some 0, Some 0) \<and>
     errorCounts s' B = Some (or_zero (errorCounts s B) + 1) \<and>
     lastFetchTimes s' B = lastFetchTimes s B \<and>
     fetchState s' A = fetchState (fst (snd (fetchAccountData s A (envs iA)))) A \<and>
     fetchState s' B = fetchState (fst (snd (fetchAccountData s B (envs iB)))) B \<and>
     (\<forall>n. n \<noteq> A \<and> n \<noteq> B \<longrightarrow> untouched n (s, cd) (s', cd'))"
proof -
  let ?st' = "fetchAllAccountsData cfg envs (s, cd)"
  have A: "fetchState (fst ?st') A = fetchState (fst (fst (fetchOne cfg (envs iA) A (s, cd)))) A"
      "accounts (snd ?st') A = accounts (snd (fst (fetchOne cfg (envs iA) A (s, cd)))) A"
    and B: "fetchState (fst ?st') B = fetchState (fst (fst (fetchOne cfg (envs iB) B (s, cd)))) B"
      "accounts (snd ?st') B = accounts (snd (fst (fetchOne cfg (envs iB) B (s, cd)))) B"
    and others: "\<forall>n. n \<noteq> A \<and> n \<noteq> B \<longrightarrow> untouched n (s, cd) ?st'"
    using order two_iterations [OF ne, of cfg envs "(s, cd)"]
      two_iterations [OF ne [symmetric], of cfg envs "(s, cd)"]
    by (auto simp: fetchAllAccountsData_def)
  note sA = fetchOne_success [OF cA bA gA, of cfg cd]
  note fB = fetchOne_failure [OF cB bB gB, of cfg cd]
  have eB: "errorCounts (fst ?st') B = Some (or_zero (errorCounts s B) + 1)"
    and lB: "lastFetchTimes (fst ?st') B = lastFetchTimes s B"
    using B(1) fB(1,2) by (simp_all add: fetchState_def)
  show ?thesis
    using A B others sA fB(3) eB lB
    by (cases ?st') (simp add: fetchOne_am)
qed

theorem pass_over_two_witness:
  "accounts (snd (fetchAllAccountsData [acctA, acctB] oneGoodOneBad (amAB, cacheB))) ''A''
     = Some (snapshot ''A'' 10) \<and>
   accounts (snd (fetchAllAccountsData [acctA, acctB] oneGoodOneBad (amAB, cacheB))) ''B''
     = Some (snapshot ''B'' 5) \<and>
   errorCounts (fst (fetchAllAccountsData [acctA, acctB] oneGoodOneBad (amAB, cacheB))) ''A'' = Some 0 \<and>
   errorCounts (fst (fetchAllAccountsData [acctA, acctB] oneGoodOneBad (amAB, cacheB))) ''B'' = Some 1 \<and>
   lastFetchTimes (fst (fetchAllAccountsData [acctA, acctB] oneGoodOneBad (amAB, cacheB))) ''A''
     = Some 1001"
proof -
  have order: "getAvailableAccounts [acctA, acctB] = [''A'', ''B''] \<and> (0::nat) = 0 \<and> Suc 0 = Suc 0 \<or>
               getAvailableAccounts [acctA, acctB] = [''B'', ''A''] \<and> Suc 0 = 0 \<and> (0::nat) = Suc 0"
    by (simp add: getAvailableAccounts_def sample_defs)
  have ne: "''A'' \<noteq> ''B''" by simp
  have cA: "exchangeClients amAB ''A'' = Some clientA"
    and cB: "exchangeClients amAB ''B'' = Some clientB"
    by (simp_all add: sample_defs)
  have bA: "\<not> exceeds (backoffTimes amAB ''A'') (now_check (oneGoodOneBad 0))"
    and bB: "\<not> exceeds (backoffTimes amAB ''B'') (now_check (oneGoodOneBad (Suc 0)))"
    by (simp_all add: sample_defs exceeds_def oneGoodOneBad_def)
  have gA: "getExchangeData (oneGoodOneBad 0) clientA = Resolved (snapshot ''A'' 10)"
    and gB: "getExchangeData (oneGoodOneBad (Suc 0)) clientB = Rejected ''timeout''"
    by (simp_all add: oneGoodOneBad_def answers_def)
  have e: "errorCounts amAB ''B'' = Some 0" by (simp add: sample_defs)
  from pass_over_two_accounts [OF order ne cA cB bA bB gA gB, of cacheB]
  obtain s' cd' where r: "fetchAllAccountsData [acctA, acctB] oneGoodOneBad (amAB, cacheB) = (s', cd')"
    and a: "accounts cd' ''A'' = Some (snapshot ''A'' 10)"
    and b: "accounts cd' ''B'' = accounts cacheB ''B''"
    and fa: "fetchState s' ''A'' = (Some (now_done (oneGoodOneBad 0)), Some 0, Some 0)"
    and eb: "errorCounts s' ''B'' = Some (or_zero (errorCounts amAB ''B'') + 1)"
    by blast
  have "now_done (oneGoodOneBad 0) = 1001"
    by (simp add: oneGoodOneBad_def answers_def)
  with fa have "lastFetchTimes s' ''A'' = Some 1001" "errorCounts s' ''A'' = Some 0"
    by (simp_all add: fetchState_def)
  moreover from eb e have "errorCounts s' ''B'' = Some 1"
    by (simp add: or_zero_def)
  moreover from b have "accounts cd' ''B'' = Some (snapshot ''B'' 5)"
    by (simp add: cacheB_def)
  ultimately show ?thesis
    using a by (simp add: r)
qed

section \<open>Health reports\<close>

lemma amDegraded_state: "fetchState amDegraded ''A'' = (Some 1001, Some 5, Some 36001)"
  by (simp add: amDegraded_def eval_nat_numeral sample_defs run_defs fetchState_def)

lemma reachable_amDegraded: "reachable amDegraded"
  unfolding amDegraded_def by (intro reachable_failing reachable.fetch reachable_amA)

text \<open>
  Claim C4, as the code has it. For an account with a client, the health report has an
  entry whose \<open>healthy\<close> flag holds exactly when a fetch has succeeded (the last fetch
  time is positive) less than 60000 ms before \<open>now\<close>. An active backoff has no part in
  the flag: it is reported next to it as \<open>inBackoff\<close>, which holds exactly when the
  backoff time is later than \<open>now\<close>.
\<close>

theorem health_ignores_backoff:
  assumes "exchangeClients s n = Some client"
  shows "\<exists>h. getHealthStatus cfg s now n = Some h \<and>
     healthy h = (or_zero (lastFetchTimes s n) > 0 \<and> now - or_zero (lastFetchTimes s n) < 60000) \<and>
     inBackoff h = exceeds (backoffTimes s n) now \<and>
     errorCount h = or_zero (errorCounts s n)"
  using assms by (simp add: getHealthStatus_def accountHealth_def Let_def)

theorem health_ignores_backoff_witness:
  "map_option healthy (getHealthStatus [acctA] amDegraded 10000 ''A'') = Some True \<and>
   map_option inBackoff (getHealthStatus [acctA] amDegraded 10000 ''A'') = Some True \<and>
   map_option errorCount (getHealthStatus [acctA] amDegraded 10000 ''A'') = Some 5"
proof -
  have c: "exchangeClients amDegraded ''A'' = Some clientA"
    by (simp add: amDegraded_def clients_failing fetchAccountData_keeps_clients sample_defs)
  from health_ignores_backoff [OF c, of "[acctA]" 10000] amDegraded_state
  show ?thesis by (auto simp: fetchState_def or_zero_def exceeds_def)
qed

text \<open>
  Claim C4 as stated fails: after a successful fetch at 1000 and five failures between
  2000 and 6001 the account is backing off until 36001, and at 10000 the report still
  says \<open>healthy\<close>, while the stated rule (fresh fetch and no active backoff) does not hold.
\<close>

theorem healthy_during_backoff:
  "reachable amDegraded \<and>
   map_option healthy (getHealthStatus [acctA] amDegraded 10000 ''A'') = Some True \<and>
   \<not> healthyBySpec amDegraded 10000 ''A''"
proof -
  have c: "exchangeClients amDegraded ''A'' = Some clientA"
    by (simp add: amDegraded_def clients_failing fetchAccountData_keeps_clients sample_defs)
  show ?thesis
    using amDegraded_state c reachable_amDegraded
    by (simp add: getHealthStatus_def accountHealth_def Let_def healthyBySpec_def fetchState_def
        or_zero_def exceeds_def)
qed

section \<open>Selecting the current account\<close>

lemma fetchOne_keeps_lists:
  "availableAccounts (snd (fst (fetchOne cfg env a st))) = availableAccounts (snd st) \<and>
   currentAccount (snd (fst (fetchOne cfg env a st))) = currentAccount (snd st)"
  by (simp add: fetchOne_def Let_def split: prod.splits option.splits)

lemma fetchLoop_keeps_lists:
  "availableAccounts (snd (fetchLoop cfg envs i names st)) = availableAccounts (snd st) \<and>
   currentAccount (snd (fetchLoop cfg envs i names st)) = currentAccount (snd st)"
  by (induction names arbitrary: i st) (simp_all add: fetchOne_keeps_lists)

lemma passes_keep_lists:
  "availableAccounts (snd (passes cfg envss k st)) = availableAccounts (snd st) \<and>
   currentAccount (snd (passes cfg envss k st)) = currentAccount (snd st)"
  by (induction k) (simp_all add: fetchAllAccountsData_def fetchLoop_keeps_lists)

lemma startDataFetcher_lists:
  "availableAccounts (snd (startDataFetcher cfg inits envs st)) = map name cfg"
  by (simp add: startDataFetcher_def Let_def fetchAllAccountsData_def fetchLoop_keeps_lists
      getAvailableAccounts_def split: list.splits)

lemma setCurrentAccount_keeps_list:
  "availableAccounts (snd (setCurrentAccount cd n)) = availableAccounts cd"
  by (simp add: setCurrentAccount_def)

lemma serve_keeps_list:
  "availableAccounts (snd (serve cfg events st)) = availableAccounts (snd st)"
proof (induction events arbitrary: st)
  case Nil
  then show ?case by simp
next
  case (Cons e events)
  then show ?case
    by (cases e)
      (simp_all add: fetchAllAccountsData_def fetchLoop_keeps_lists setCurrentAccount_keeps_list)
qed

text \<open>
  Claim C7, as the code has it. \<^verbatim>\<open>setCurrentAccount\<close> does not ask the account
  manager which accounts are registered: it looks the name up in the list
  \<^verbatim>\<open>availableAccounts\<close> of the cache, which \<^verbatim>\<open>startDataFetcher\<close> fills with the
  names of the accounts of the configuration, whatever became of their initialisation
  (\<open>inits\<close> is arbitrary), and which no pass and no selection changes. So in the cache
  \<open>cd\<close> of a started service, after any passes and selections, the call throws
  \<open>Invalid account\<close> exactly for a name that is not the name of an account of the
  configuration, and then the cache, the selection with it, is what it was; for the name
  of an account of the configuration the selection becomes that name and nothing else
  changes.
\<close>

theorem setCurrentAccount_accepts_configured_names:
  assumes "cd = snd (serve cfg events (startDataFetcher cfg inits envs st))"
  shows "(fst (setCurrentAccount cd n) = None) = (n \<in> set (map name cfg)) \<and>
     setCurrentAccount cd n =
       (if n \<in> set (map name cfg) then (None, cd\<lparr>currentAccount := n\<rparr>)
        else (Some (''Invalid account: '' @ n), cd)) \<and>
     availableAccounts cd = map name cfg \<and>
     availableAccounts (snd (setCurrentAccount cd n)) = map name cfg"
proof -
  have "availableAccounts cd = map name cfg"
    unfolding assms by (simp add: serve_keeps_list startDataFetcher_lists)
  then show ?thesis
    by (simp add: setCurrentAccount_def)
qed

theorem configured_names_witness:
  "setCurrentAccount
      (snd (serve [acctA] [SelectAccount ''X'', TimerPass (\<lambda>i. answers 41000 (Rejected ''timeout''))]
              startedWithoutA)) ''A''
     = (None,
        (snd (serve [acctA] [SelectAccount ''X'', TimerPass (\<lambda>i. answers 41000 (Rejected ''timeout''))]
                startedWithoutA))\<lparr>currentAccount := ''A''\<rparr>) \<and>
   setCurrentAccount
      (snd (serve [acctA] [SelectAccount ''X'', TimerPass (\<lambda>i. answers 41000 (Rejected ''timeout''))]
              startedWithoutA)) ''X''
     = (Some ''Invalid account: X'',
        snd (serve [acctA] [SelectAccount ''X'', TimerPass (\<lambda>i. answers 41000 (Rejected ''timeout''))]
               startedWithoutA))"
proof -
  let ?cd = "snd (serve [acctA] [SelectAccount ''X'',
                TimerPass (\<lambda>i. answers 41000 (Rejected ''timeout''))] startedWithoutA)"
  have cd: "?cd = snd (serve [acctA] [SelectAccount ''X'',
                TimerPass (\<lambda>i. answers 41000 (Rejected ''timeout''))]
              (startDataFetcher [acctA] (\<lambda>i. refuses)
                 (\<lambda>i. answers 1000 (Resolved (snapshot ''A'' 10))) (am_init, cachedData_init)))"
    by (simp only: startedWithoutA_def)
  from setCurrentAccount_accepts_configured_names [OF cd, of "''A''"]
    setCurrentAccount_accepts_configured_names [OF cd, of "''X''"]
  show ?thesis
    by (simp add: acctA_def)
qed

section \<open>Adding an account twice\<close>

text \<open>
  The handler rejects a name that the configuration lists.
\<close>

lemma post_configured_name_rejected:
  assumes "body_name body = Some nm" and "getAccountConfig cfg nm \<noteq> None"
    and "\<not> falsy (body_name body)" and "\<not> falsy (body_exchange body)"
    and "\<not> falsy (body_accountType body)" and "\<not> falsy (body_apiKey body)"
    and "\<not> falsy (body_apiSecret body)"
  shows "postAccounts cfg initialize s body
           = (Reply 400 (ErrorBody ''Account with this name already exists''), s)"
  using assms by (auto simp: postAccounts_def falsy_def split: option.splits)

text \<open>
  Claim C5 is not what the handler does for a name the configuration does not list.
  \<^verbatim>\<open>initializeAccount\<close> never adds to the configuration, so the duplicate test of
  the handler does not find an account that an earlier \<^verbatim>\<open>POST /accounts\<close> added:
  the second request for \<open>X\<close> is answered with success again, and the client stored for
  \<open>X\<close> is replaced by one built from the new credentials.
\<close>

theorem second_post_replaces_account:
  "fst (postAccounts [acctA] connects amA (addX ''key1''))
     = Reply 200 (AddedBody ''Account added successfully'' ''X'') \<and>
   exchangeClients (snd (postAccounts [acctA] connects amA (addX ''key1''))) ''X''
     = Some (BinanceClient FUTURES ''key1'' ''secretX'' None) \<and>
   fst (postAccounts [acctA] connects (snd (postAccounts [acctA] connects amA (addX ''key1'')))
          (addX ''key2''))
     = Reply 200 (AddedBody ''Account added successfully'' ''X'') \<and>
   exchangeClients (snd (postAccounts [acctA] connects
          (snd (postAccounts [acctA] connects amA (addX ''key1''))) (addX ''key2''))) ''X''
     = Some (BinanceClient FUTURES ''key2'' ''secretX'' None)"
  by (simp add: postAccounts_def addX_def falsy_def getAccountConfig_def getAccountByName_def
      sample_defs)

text \<open>
  Nor does the request enter the name in the list of available accounts of the cache:
  after the answer that \<open>X\<close> was added, and with its client held by the account manager,
  \<open>X\<close> is not a name \<^verbatim>\<open>setCurrentAccount\<close> accepts.
\<close>

lemma added_account_is_not_available:
  "fst (postAccounts [acctA] connects (fst started) (addX ''key1''))
     = Reply 200 (AddedBody ''Account added successfully'' ''X'') \<and>
   isAccountInitialized (snd (postAccounts [acctA] connects (fst started) (addX ''key1''))) ''X'' \<and>
   availableAccounts (snd started) = [''A''] \<and>
   setCurrentAccount (snd started) ''X'' = (Some ''Invalid account: X'', snd started)"
proof -
  have l: "availableAccounts (snd started) = [''A'']"
    unfolding started_def by (simp add: startDataFetcher_lists acctA_def)
  have p: "postAccounts [acctA] connects (fst started) (addX ''key1'') =
      (Reply 200 (AddedBody ''Account added successfully'' ''X''),
       snd (initializeAccount connects (fst started)
         \<lparr>name = ''X'', exchange = ''binance'', accountType = ''futures'', apiKey = ''key1'',
          apiSecret = ''secretX'', baseUrl = None\<rparr>))"
    by (simp add: postAccounts_def addX_def falsy_def getAccountConfig_def getAccountByName_def
        acctA_def initializeAccount_def makeClient_def connects_def)
  show ?thesis
    by (simp add: p l setCurrentAccount_def isAccountInitialized_def initializeAccount_def
        makeClient_def connects_def)
qed

text \<open>
  Claim C7 as stated fails, with the accounts the account manager has initialised taken
  as the registered ones. The configuration lists \<open>A\<close>. When the exchange refuses
  \<open>A\<close> at start-up, \<open>A\<close> is never registered, and selecting it succeeds. When
  \<^verbatim>\<open>POST /accounts\<close> has registered \<open>X\<close>, selecting \<open>X\<close> is refused as invalid.
\<close>

theorem selection_ignores_registration:
  "\<not> isAccountInitialized (fst startedWithoutA) ''A'' \<and>
   setCurrentAccount (snd startedWithoutA) ''A''
     = (None, (snd startedWithoutA)\<lparr>currentAccount := ''A''\<rparr>) \<and>
   fst (postAccounts [acctA] connects (fst started) (addX ''key1''))
     = Reply 200 (AddedBody ''Account added successfully'' ''X'') \<and>
   isAccountInitialized (snd (postAccounts [acctA] connects (fst started) (addX ''key1''))) ''X'' \<and>
   setCurrentAccount (snd started) ''X'' = (Some ''Invalid account: X'', snd started)"
proof -
  have l: "availableAccounts (snd startedWithoutA) = [''A'']"
    unfolding startedWithoutA_def by (simp add: startDataFetcher_lists acctA_def)
  have "fst startedWithoutA = am_init"
    by (simp add: startedWithoutA_def startDataFetcher_def Let_def fetchAllAccountsData_def
        getAvailableAccounts_def fetchOne_def fetchAccountData_def initializeAccount_def
        makeClient_def acctA_def refuses_def am_init_def inheritedNames_def)
  then have i: "exchangeClients (fst startedWithoutA) ''A'' = None"
    by (simp add: am_init_def)
  show ?thesis
    using added_account_is_not_available
    by (simp add: i l setCurrentAccount_def isAccountInitialized_def inheritedNames_def)
qed

section \<open>Reading the cache\<close>

lemma those_map_cong:
  "those (map f xs) = Some ys \<Longrightarrow> (\<And>x y. x \<in> set xs \<Longrightarrow> f x = Some y \<Longrightarrow> g x = Some y)
     \<Longrightarrow> those (map g xs) = Some ys"
proof (induction xs arbitrary: ys)
  case Nil
  then show ?case by simp
next
  case (Cons x xs)
  then show ?case by (auto split: option.splits)
qed

lemma those_map_all:
  "those (map f xs) = Some ys \<Longrightarrow> \<forall>x \<in> set xs. \<forall>y. f x = Some y \<longrightarrow> P y
     \<Longrightarrow> \<forall>y \<in> set ys. P y"
proof (induction xs arbitrary: ys)
  case Nil
  then show ?case by simp
next
  case (Cons x xs)
  from Cons.prems(1) obtain y zs where y: "f x = Some y" and zs: "those (map f xs) = Some zs"
    and ys: "ys = y # zs"
    by (auto split: option.splits)
  from Cons.IH [OF zs] Cons.prems(2) have "\<forall>z \<in> set zs. P z" by simp
  moreover from y Cons.prems(2) have "P y" by simp
  ultimately show ?case by (simp add: ys)
qed

lemma prefix_nth: "prefix h h' \<Longrightarrow> a < length h \<Longrightarrow> h' ! a = h ! a"
  by (auto simp: prefix_def nth_append)

lemma serialize_stable:
  "serialize k h v = Some j \<Longrightarrow> k \<le> k' \<Longrightarrow> prefix h h' \<Longrightarrow> serialize k' h' v = Some j"
proof (induction k h v arbitrary: k' j rule: serialize.induct)
  case (8 k h a)
  from "8.prems"(2) obtain m where k': "k' = Suc m" and km: "k \<le> m"
    by (cases k') auto
  from "8.prems"(1) have a: "a < length h"
    by (auto split: if_splits)
  then have a': "a < length h'" and cell: "h' ! a = h ! a"
    using "8.prems"(3) prefix_nth [of h h' a] prefix_length_le [of h h'] by auto
  show ?case
  proof (cases "h ! a")
    case (OArray vs)
    with "8.prems"(1) a obtain js where
      js: "those (map (\<lambda>w. if w = VUndefined then Some JNull else serialize k h w) vs) = Some js"
      and j: "j = JArr js"
      by auto
    have "those (map (\<lambda>w. if w = VUndefined then Some JNull else serialize m h' w) vs) = Some js"
      by (rule those_map_cong [OF js])
        (use "8.IH"(2) [OF a OArray _ _ _ km "8.prems"(3)] in \<open>auto split: if_splits\<close>)
    then show ?thesis
      using OArray a' cell j k' by simp
  next
    case (OObject ps)
    with "8.prems"(1) a obtain qs where
      qs: "those (map (\<lambda>p. map_option (Pair (fst p)) (serialize k h (snd p)))
                   (filter (\<lambda>p. snd p \<noteq> VUndefined) ps)) = Some qs"
      and j: "j = JObj qs"
      by auto
    have "those (map (\<lambda>p. map_option (Pair (fst p)) (serialize m h' (snd p)))
                   (filter (\<lambda>p. snd p \<noteq> VUndefined) ps)) = Some qs"
      by (rule those_map_cong [OF qs])
        (use "8.IH"(1) [OF a OObject _ _ km "8.prems"(3)] in auto)
    then show ?thesis
      using OObject a' cell j k' by simp
  qed
qed auto

lemma depth_all_le: "(\<forall>j \<in> set js. depth j \<le> k) \<Longrightarrow> depth_all js \<le> k"
  by (induction js) auto

lemma depth_fields_le: "(\<forall>p \<in> set ps. depth (snd p) \<le> k) \<Longrightarrow> depth_fields ps \<le> k"
  by (induction ps) auto

lemma serialize_depth: "serialize k h v = Some j \<Longrightarrow> depth j \<le> k"
proof (induction k h v arbitrary: j rule: serialize.induct)
  case (8 k h a)
  from "8.prems" have a: "a < length h"
    by (auto split: if_splits)
  show ?case
  proof (cases "h ! a")
    case (OArray vs)
    with "8.prems" a obtain js where
      js: "those (map (\<lambda>w. if w = VUndefined then Some JNull else serialize k h w) vs) = Some js"
      and j: "j = JArr js"
      by auto
    have "\<forall>j \<in> set js. depth j \<le> k"
      by (rule those_map_all [OF js])
        (use "8.IH"(2) [OF a OArray] in \<open>auto split: if_splits\<close>)
    then show ?thesis
      by (simp add: j depth_all_le)
  next
    case (OObject ps)
    with "8.prems" a obtain qs where
      qs: "those (map (\<lambda>p. map_option (Pair (fst p)) (serialize k h (snd p)))
                   (filter (\<lambda>p. snd p \<noteq> VUndefined) ps)) = Some qs"
      and j: "j = JObj qs"
      by auto
    have "\<forall>q \<in> set qs. depth (snd q) \<le> k"
      by (rule those_map_all [OF qs])
        (use "8.IH"(1) [OF a OObject] in auto)
    then show ?thesis
      by (simp add: j depth_fields_le)
  qed
qed auto

lemma build_prefix:
  "build j h = (v, h1) \<Longrightarrow> prefix h h1"
  "build_all js h = (vs, h1) \<Longrightarrow> prefix h h1"
  "build_fields ps h = (fs, h1) \<Longrightarrow> prefix h h1"
proof (induction j h and js h and ps h arbitrary: v h1 and vs h1 and fs h1
    rule: build_build_all_build_fields.induct)
  case (5 js h)
  then show ?case
    by (auto split: prod.splits intro: prefix_order.trans)
next
  case (6 ps h)
  then show ?case
    by (auto split: prod.splits intro: prefix_order.trans)
next
  case (8 j js h)
  then show ?case
    by (auto split: prod.splits intro: prefix_order.trans)
next
  case (10 p ps h)
  then show ?case
    by (auto split: prod.splits intro: prefix_order.trans)
qed auto

lemma closed_from_mono:
  "closed_from n h \<Longrightarrow> a < length h \<Longrightarrow> n \<le> a \<Longrightarrow> b \<in> orefs (h ! a) \<Longrightarrow> n \<le> b \<and> b < length h"
  unfolding closed_from_def by fastforce

lemma closed_from_append:
  assumes "closed_from n h" and "orefs obj \<subseteq> {n..<length h}"
  shows "closed_from n (h @ [obj])"
  unfolding closed_from_def
proof (intro allI impI subsetI)
  fix a b assume a: "n \<le> a \<and> a < length (h @ [obj])" and b: "b \<in> orefs ((h @ [obj]) ! a)"
  show "b \<in> {n..<length (h @ [obj])}"
  proof (cases "a < length h")
    case True
    with b have "b \<in> orefs (h ! a)" by (simp add: nth_append)
    from closed_from_mono [OF assms(1) True _ this] a show ?thesis by simp
  next
    case False
    with a have "a = length h" by simp
    with b assms(2) show ?thesis by auto
  qed
qed

lemma closed_from_extend:
  assumes "closed_from n h1" and "closed_from (length h1) h2" and "prefix h1 h2" and "n \<le> length h1"
  shows "closed_from n h2"
  unfolding closed_from_def
proof (intro allI impI subsetI)
  fix a b assume a: "n \<le> a \<and> a < length h2" and b: "b \<in> orefs (h2 ! a)"
  have len: "length h1 \<le> length h2" using assms(3) by (rule prefix_length_le)
  show "b \<in> {n..<length h2}"
  proof (cases "a < length h1")
    case True
    then have "h2 ! a = h1 ! a" using assms(3) by (simp add: prefix_nth)
    with b have "b \<in> orefs (h1 ! a)" by simp
    from closed_from_mono [OF assms(1) True _ this] a len show ?thesis by simp
  next
    case False
    then have "length h1 \<le> a" by simp
    from closed_from_mono [OF assms(2) _ this b] a assms(4) show ?thesis by simp
  qed
qed

lemma closed_from_refl: "closed_from (length h) h"
  by (auto simp: closed_from_def)

lemma interval_widen:
  fixes S :: "nat set"
  shows "S \<subseteq> {a..<b} \<Longrightarrow> a' \<le> a \<Longrightarrow> b \<le> b' \<Longrightarrow> S \<subseteq> {a'..<b'}"
  by (force simp: subset_iff)

lemma build_fresh:
  "build j h = (v, h1) \<Longrightarrow> vrefs v \<subseteq> {length h..<length h1} \<and> closed_from (length h) h1"
  "build_all js h = (vs, h1) \<Longrightarrow>
     (\<Union>v \<in> set vs. vrefs v) \<subseteq> {length h..<length h1} \<and> closed_from (length h) h1"
  "build_fields ps h = (fs, h1) \<Longrightarrow>
     (\<Union>p \<in> set fs. vrefs (snd p)) \<subseteq> {length h..<length h1} \<and> closed_from (length h) h1"
proof (induction j h and js h and ps h arbitrary: v h1 and vs h1 and fs h1
    rule: build_build_all_build_fields.induct)
  case (5 js h)
  obtain vs h2 where b: "build_all js h = (vs, h2)" by (cases "build_all js h")
  from "5.IH" [OF b] have "closed_from (length h) (h2 @ [OArray vs])"
    by (intro closed_from_append) (simp_all add: orefs_def)
  with build_prefix(2) [OF b, THEN prefix_length_le] "5.prems" b show ?case
    by auto
next
  case (6 ps h)
  obtain fs h2 where b: "build_fields ps h = (fs, h2)" by (cases "build_fields ps h")
  from "6.IH" [OF b] have "closed_from (length h) (h2 @ [OObject fs])"
    by (intro closed_from_append) (simp_all add: orefs_def)
  with build_prefix(3) [OF b, THEN prefix_length_le] "6.prems" b show ?case
    by auto
next
  case (8 j js h)
  obtain v' h2 where b1: "build j h = (v', h2)" by (cases "build j h")
  obtain vs' h3 where b2: "build_all js h2 = (vs', h3)" by (cases "build_all js h2")
  note p1 = build_prefix(1) [OF b1] and p2 = build_prefix(2) [OF b2]
  note l1 = prefix_length_le [OF p1] and l2 = prefix_length_le [OF p2]
  from "8.IH"(1) [OF b1] have i1: "vrefs v' \<subseteq> {length h..<length h2}" "closed_from (length h) h2"
    by simp_all
  from "8.IH"(2) [OF b1 [symmetric] b2]
  have i2: "(\<Union>v \<in> set vs'. vrefs v) \<subseteq> {length h2..<length h3}" "closed_from (length h2) h3"
    by simp_all
  have "closed_from (length h) h3"
    by (rule closed_from_extend [OF i1(2) i2(2) p2 l1])
  moreover have "vrefs v' \<subseteq> {length h..<length h3}"
    using i1(1) l2 by (rule interval_widen [OF _ order_refl])
  moreover have "(\<Union>v \<in> set vs'. vrefs v) \<subseteq> {length h..<length h3}"
    using i2(1) l1 by (rule interval_widen [OF _ _ order_refl])
  ultimately show ?case
    using "8.prems" b1 b2 by fastforce
next
  case (10 p ps h)
  obtain v' h2 where b1: "build (snd p) h = (v', h2)" by (cases "build (snd p) h")
  obtain fs' h3 where b2: "build_fields ps h2 = (fs', h3)" by (cases "build_fields ps h2")
  note p1 = build_prefix(1) [OF b1] and p2 = build_prefix(3) [OF b2]
  note l1 = prefix_length_le [OF p1] and l2 = prefix_length_le [OF p2]
  from "10.IH"(1) [OF b1] have i1: "vrefs v' \<subseteq> {length h..<length h2}" "closed_from (length h) h2"
    by simp_all
  from "10.IH"(2) [OF b1 [symmetric] b2]
  have i2: "(\<Union>p \<in> set fs'. vrefs (snd p)) \<subseteq> {length h2..<length h3}" "closed_from (length h2) h3"
    by simp_all
  have "closed_from (length h) h3"
    by (rule closed_from_extend [OF i1(2) i2(2) p2 l1])
  moreover have "vrefs v' \<subseteq> {length h..<length h3}"
    using i1(1) l2 by (rule interval_widen [OF _ order_refl])
  moreover have "(\<Union>p \<in> set fs'. vrefs (snd p)) \<subseteq> {length h..<length h3}"
    using i2(1) l1 by (rule interval_widen [OF _ _ order_refl])
  ultimately show ?case
    using "10.prems" b1 b2 by fastforce
qed (auto simp: closed_from_refl)

lemma reaches_closed:
  assumes "reaches h v b" and "vrefs v \<subseteq> {n..<length h}" and "closed_from n h"
  shows "n \<le> b \<and> b < length h"
  using assms
proof (induction rule: reaches.induct)
  case (root h a)
  then show ?case by simp
next
  case (step h v a b)
  then have "n \<le> a" by simp
  from closed_from_mono [OF step.prems(2) step.hyps(2) this step.hyps(3)] show ?case .
qed

lemma build_serialize:
  "build j h = (v, h1) \<Longrightarrow> depth j \<le> k \<Longrightarrow> serialize k h1 v = Some j"
  "build_all js h = (vs, h1) \<Longrightarrow> depth_all js \<le> k \<Longrightarrow>
     those (map (\<lambda>w. if w = VUndefined then Some JNull else serialize k h1 w) vs) = Some js"
  "build_fields ps h = (fs, h1) \<Longrightarrow> depth_fields ps \<le> k \<Longrightarrow>
     those (map (\<lambda>p. map_option (Pair (fst p)) (serialize k h1 (snd p))) fs) = Some ps
     \<and> (\<forall>p \<in> set fs. snd p \<noteq> VUndefined)"
proof (induction j h and js h and ps h arbitrary: v h1 k and vs h1 k and fs h1 k
    rule: build_build_all_build_fields.induct)
  case (5 js h)
  obtain vs h2 where b: "build_all js h = (vs, h2)" by (cases "build_all js h")
  from "5.prems"(2) obtain m where k: "k = Suc m" and m: "depth_all js \<le> m"
    by (cases k) auto
  from "5.prems"(1) b have v: "v = VRef (length h2)" and h1: "h1 = h2 @ [OArray vs]"
    by auto
  have p: "prefix h2 (h2 @ [OArray vs])" by simp
  have "those (map (\<lambda>w. if w = VUndefined then Some JNull
                           else serialize m (h2 @ [OArray vs]) w) vs) = Some js"
    by (rule those_map_cong [OF "5.IH" [OF b m]])
      (auto split: if_splits intro: serialize_stable [OF _ order_refl p])
  then show ?case
    unfolding k v h1 by simp
next
  case (6 ps h)
  obtain fs h2 where b: "build_fields ps h = (fs, h2)" by (cases "build_fields ps h")
  from "6.prems"(2) obtain m where k: "k = Suc m" and m: "depth_fields ps \<le> m"
    by (cases k) auto
  from "6.prems"(1) b have v: "v = VRef (length h2)" and h1: "h1 = h2 @ [OObject fs]"
    by auto
  have p: "prefix h2 (h2 @ [OObject fs])" by simp
  from "6.IH" [OF b m] have
    t: "those (map (\<lambda>p. map_option (Pair (fst p)) (serialize m h2 (snd p))) fs) = Some ps"
    and u: "\<forall>p \<in> set fs. snd p \<noteq> VUndefined"
    by simp_all
  have "those (map (\<lambda>p. map_option (Pair (fst p)) (serialize m (h2 @ [OObject fs]) (snd p))) fs)
          = Some ps"
    by (rule those_map_cong [OF t]) (auto intro: serialize_stable [OF _ order_refl p])
  moreover from u have "filter (\<lambda>p. snd p \<noteq> VUndefined) fs = fs"
    by (simp add: filter_id_conv)
  ultimately show ?case
    unfolding k v h1 by simp
next
  case (8 j js h)
  obtain v' h2 where b1: "build j h = (v', h2)" by (cases "build j h")
  obtain vs' h3 where b2: "build_all js h2 = (vs', h3)" by (cases "build_all js h2")
  from "8.prems"(1) b1 b2 have vs: "vs = v' # vs'" and h1: "h1 = h3" by auto
  from "8.prems"(2) have d1: "depth j \<le> k" and d2: "depth_all js \<le> k" by simp_all
  have "serialize k h2 v' = Some j" by (rule "8.IH"(1) [OF b1 d1])
  then have "serialize k h3 v' = Some j"
    by (rule serialize_stable [OF _ order_refl build_prefix(2) [OF b2]])
  moreover then have "v' \<noteq> VUndefined" by auto
  moreover note "8.IH"(2) [OF b1 [symmetric] b2 d2]
  ultimately show ?case
    unfolding vs h1 by simp
next
  case (10 p ps h)
  obtain v' h2 where b1: "build (snd p) h = (v', h2)" by (cases "build (snd p) h")
  obtain fs' h3 where b2: "build_fields ps h2 = (fs', h3)" by (cases "build_fields ps h2")
  from "10.prems"(1) b1 b2 have fs: "fs = (fst p, v') # fs'" and h1: "h1 = h3" by auto
  from "10.prems"(2) have d1: "depth (snd p) \<le> k" and d2: "depth_fields ps \<le> k" by simp_all
  have "serialize k h2 v' = Some (snd p)" by (rule "10.IH"(1) [OF b1 d1])
  then have "serialize k h3 v' = Some (snd p)"
    by (rule serialize_stable [OF _ order_refl build_prefix(3) [OF b2]])
  moreover then have "v' \<noteq> VUndefined" by auto
  moreover note "10.IH"(2) [OF b1 [symmetric] b2 d2]
  ultimately show ?case
    unfolding fs h1 by simp
qed auto

lemma those_assign:
  "those (map (\<lambda>p. map_option (Pair (fst p)) (g (snd p))) fs) = Some ps \<Longrightarrow> g v = Some jv \<Longrightarrow>
   those (map (\<lambda>p. map_option (Pair (fst p)) (g (snd p))) (assign fs key v))
     = Some (assign ps key jv)"
proof (induction fs arbitrary: ps)
  case Nil
  then show ?case by simp
next
  case (Cons p fs)
  from Cons.prems(1) obtain y qs where y: "g (snd p) = Some y"
    and qs: "those (map (\<lambda>p. map_option (Pair (fst p)) (g (snd p))) fs) = Some qs"
    and ps: "ps = (fst p, y) # qs"
    by (auto split: option.splits)
  from Cons.IH [OF qs Cons.prems(2)] y qs Cons.prems(2) show ?case
    by (simp add: ps)
qed

lemma assign_set: "set (assign fs key v) \<subseteq> set fs \<union> {(key, v)}"
  by (induction fs) auto

lemma serialize_ref_shape:
  "serialize k h (VRef a) = Some j \<Longrightarrow> (\<exists>js. j = JArr js) \<or> (\<exists>ps. j = JObj ps)"
  by (cases k) (auto split: if_splits jsobj.splits)

lemma getCachedData_content:
  assumes "serialize fuel h (VRef cachedData) = Some doc"
  shows "\<exists>a h'. getCachedData fuel h cachedData stamp = Some (VRef a, h') \<and>
           prefix h h' \<and>
           serialize fuel h' (VRef a) = Some (stamped doc stamp) \<and>
           length h \<le> a \<and> a < length h' \<and> closed_from (length h) h'"
proof -
  have d: "depth doc \<le> fuel" using assms by (rule serialize_depth)
  from serialize_ref_shape [OF assms] show ?thesis
  proof (elim disjE exE)
    fix js assume t: "doc = JArr js"
    obtain vs h2 where b: "build_all js h = (vs, h2)" by (cases "build_all js h")
    have bt: "build doc h = (VRef (length h2), h2 @ [OArray vs])"
      by (simp add: t b)
    have "getCachedData fuel h cachedData stamp = Some (VRef (length h2), h2 @ [OArray vs])"
      by (simp add: getCachedData_def assms bt)
    moreover have "prefix h (h2 @ [OArray vs])"
      using build_prefix(1) [OF bt] .
    moreover have "serialize fuel (h2 @ [OArray vs]) (VRef (length h2)) = Some (stamped doc stamp)"
      using build_serialize(1) [OF bt d] by (simp add: stamped_def t)
    moreover have "length h \<le> length h2"
      using build_prefix(2) [OF b] by (rule prefix_length_le)
    moreover have "closed_from (length h) (h2 @ [OArray vs])"
      using build_fresh(1) [OF bt] by simp
    ultimately show ?thesis by simp
  next
    fix ps assume t: "doc = JObj ps"
    obtain fs h2 where b: "build_fields ps h = (fs, h2)" by (cases "build_fields ps h")
    let ?fs' = "assign fs ''lastUpdate'' (VStr stamp)"
    from d obtain m where fuel: "fuel = Suc m" and m: "depth_fields ps \<le> m"
      by (cases fuel) (auto simp: t)
    have bt: "build doc h = (VRef (length h2), h2 @ [OObject fs])"
      by (simp add: t b)
    have g: "getCachedData fuel h cachedData stamp = Some (VRef (length h2), h2 @ [OObject ?fs'])"
      by (simp add: getCachedData_def assms bt)
    have p2: "prefix h h2" using b by (rule build_prefix(3))
    have p: "prefix h2 (h2 @ [OObject ?fs'])" by simp
    from build_serialize(3) [OF b m] have
      ser: "those (map (\<lambda>p. map_option (Pair (fst p)) (serialize m h2 (snd p))) fs) = Some ps"
      and def: "\<forall>p \<in> set fs. snd p \<noteq> VUndefined"
      by simp_all
    have "those (map (\<lambda>p. map_option (Pair (fst p)) (serialize m (h2 @ [OObject ?fs']) (snd p))) fs)
            = Some ps"
      by (rule those_map_cong [OF ser]) (auto intro: serialize_stable [OF _ order_refl p])
    then have "those (map (\<lambda>p. map_option (Pair (fst p)) (serialize m (h2 @ [OObject ?fs']) (snd p)))
                  ?fs') = Some (assign ps ''lastUpdate'' (JStr stamp))"
      by (rule those_assign) simp
    moreover have "filter (\<lambda>p. snd p \<noteq> VUndefined) ?fs' = ?fs'"
      using def assign_set [of fs "''lastUpdate''" "VStr stamp"]
      by (auto simp: filter_id_conv)
    ultimately have c: "serialize fuel (h2 @ [OObject ?fs']) (VRef (length h2))
        = Some (stamped doc stamp)"
      by (simp add: fuel stamped_def t)
    from build_fresh(3) [OF b] have
      r: "(\<Union>p \<in> set fs. vrefs (snd p)) \<subseteq> {length h..<length h2}"
      and cl: "closed_from (length h) h2"
      by simp_all
    have "orefs (OObject ?fs') \<subseteq> {length h..<length h2}"
      using r assign_set [of fs "''lastUpdate''" "VStr stamp"]
      by (fastforce simp: orefs_def)
    with cl have "closed_from (length h) (h2 @ [OObject ?fs'])"
      by (rule closed_from_append)
    with g c p2 prefix_length_le [OF p2] show ?thesis
      by (auto intro: prefix_order.trans [OF p2 p])
  qed
qed

lemma prefix_mutate:
  "prefix h h1 \<Longrightarrow> length h \<le> fst w \<Longrightarrow> prefix h (mutate h1 w)"
  by (auto simp: prefix_def mutate_def list_update_append)

lemma prefix_mutations:
  "prefix h h1 \<Longrightarrow> \<forall>w \<in> set ws. length h \<le> fst w \<Longrightarrow> prefix h (foldl mutate h1 ws)"
  by (induction ws arbitrary: h1) (simp_all add: prefix_mutate)

lemma getCachedData_more_fuel:
  assumes "getCachedData fuel h cachedData stamp = Some r" and "fuel \<le> fuel'"
  shows "getCachedData fuel' h cachedData stamp = Some r"
proof -
  from assms(1) obtain doc where d: "serialize fuel h (VRef cachedData) = Some doc"
    by (auto simp: getCachedData_def split: option.splits)
  then have "serialize fuel' h (VRef cachedData) = Some doc"
    using assms(2) by (rule serialize_stable) simp
  with d assms(1) show ?thesis
    by (simp add: getCachedData_def)
qed

text \<open>
  Plain data can be written as a document: \<^verbatim>\<open>JSON.stringify\<close> does not throw on
  it, and the nesting is fuel enough.
\<close>

lemma those_map_some:
  "(\<And>x. x \<in> set xs \<Longrightarrow> \<exists>y. f x = Some y) \<Longrightarrow> \<exists>ys. those (map f xs) = Some ys"
proof (induction xs)
  case Nil
  then show ?case by simp
next
  case (Cons x xs)
  from Cons.prems [of x] obtain y where y: "f x = Some y" by auto
  from Cons.IH Cons.prems obtain ys where "those (map f xs) = Some ys" by auto
  with y show ?case by simp
qed

lemma plain_serialize:
  "plain k h v \<Longrightarrow> v \<noteq> VUndefined \<Longrightarrow> \<exists>j. serialize k h v = Some j"
proof (induction k h v rule: serialize.induct)
  case (8 k h a)
  from "8.prems"(1) have a: "a < length h" by simp
  show ?case
  proof (cases "h ! a")
    case (OArray vs)
    with "8.prems"(1) have all: "list_all (plain k h) vs" by simp
    have "\<exists>js. those (map (\<lambda>w. if w = VUndefined then Some JNull else serialize k h w) vs) = Some js"
    proof (rule those_map_some)
      fix w assume w: "w \<in> set vs"
      with all have "plain k h w" by (simp add: list_all_iff)
      with "8.IH"(2) [OF a OArray w] show "\<exists>y. (if w = VUndefined then Some JNull else serialize k h w) = Some y"
        by simp
    qed
    then show ?thesis using a OArray by auto
  next
    case (OObject ps)
    with "8.prems"(1) have all: "list_all (\<lambda>p. plain k h (snd p)) ps" by simp
    have "\<exists>qs. those (map (\<lambda>p. map_option (Pair (fst p)) (serialize k h (snd p)))
                   (filter (\<lambda>p. snd p \<noteq> VUndefined) ps)) = Some qs"
    proof (rule those_map_some)
      fix p assume p: "p \<in> set (filter (\<lambda>p. snd p \<noteq> VUndefined) ps)"
      with all have "plain k h (snd p)" by (simp add: list_all_iff)
      with "8.IH"(1) [OF a OObject p] p
      show "\<exists>y. map_option (Pair (fst p)) (serialize k h (snd p)) = Some y"
        by auto
    qed
    then show ?thesis using a OObject by auto
  qed
qed simp_all


lemma plain_root: "plain k h (VRef a) \<Longrightarrow> a < length h"
  by (cases k) simp_all

text \<open>
  Claim C9. For a cache that is plain data nested at most \<open>d\<close> deep, wherever its
  objects lie in the store, \<^verbatim>\<open>getCachedData\<close> returns, and with any fuel from \<open>d\<close> on
  it returns the same. With \<open>doc\<close> the document of the cache: the store has only grown,
  so no object that existed before the call was written, and the cache still holds
  \<open>doc\<close>; the returned structure holds \<open>doc\<close> with the time stamp; every object that
  can be reached from the returned reference was allocated by the call, so the copy
  shares no object with the cache and does not lead back to it. Whatever is then
  written, in any number of steps, to objects allocated by the call or later, the cache
  still holds \<open>doc\<close>, and another \<^verbatim>\<open>getCachedData\<close> returns, and returns \<open>doc\<close>
  with its own time stamp.
\<close>

theorem getCachedData_returns_independent_copy:
  assumes "plain d h (VRef cachedData)" and "d \<le> fuel"
  shows "\<exists>doc data h'.
     getCachedData fuel h cachedData stamp = Some (data, h') \<and>
     getCachedData d h cachedData stamp = Some (data, h') \<and>
     serialize fuel h (VRef cachedData) = Some doc \<and>
     prefix h h' \<and>
     serialize fuel h' (VRef cachedData) = Some doc \<and>
     serialize fuel h' data = Some (stamped doc stamp) \<and>
     (\<forall>b. reaches h' data b \<longrightarrow> length h \<le> b \<and> b < length h') \<and>
     \<not> reaches h' data cachedData \<and>
     (\<forall>ws stamp2. (\<forall>w \<in> set ws. length h \<le> fst w) \<longrightarrow>
        serialize fuel (foldl mutate h' ws) (VRef cachedData) = Some doc \<and>
        (\<exists>data2 h2. getCachedData fuel (foldl mutate h' ws) cachedData stamp2 = Some (data2, h2) \<and>
           serialize fuel h2 data2 = Some (stamped doc stamp2)))"
proof -
  from plain_serialize [OF assms(1)] obtain doc where
    td: "serialize d h (VRef cachedData) = Some doc" by auto
  then have t: "serialize fuel h (VRef cachedData) = Some doc"
    using assms(2) by (rule serialize_stable) simp
  from getCachedData_content [OF td, of stamp] obtain a h' where
    gd: "getCachedData d h cachedData stamp = Some (VRef a, h')" by blast
  then have g: "getCachedData fuel h cachedData stamp = Some (VRef a, h')"
    using assms(2) by (rule getCachedData_more_fuel)
  from getCachedData_content [OF t, of stamp] g have
    p: "prefix h h'"
    and c: "serialize fuel h' (VRef a) = Some (stamped doc stamp)"
    and a: "length h \<le> a" "a < length h'" and cl: "closed_from (length h) h'"
    by auto
  have same: "serialize fuel h'' (VRef cachedData) = Some doc" if "prefix h h''" for h''
    using t order_refl that by (rule serialize_stable)
  have fresh: "length h \<le> b \<and> b < length h'" if "reaches h' (VRef a) b" for b
    using that by (rule reaches_closed) (use a cl in auto)
  have apart: "\<not> reaches h' (VRef a) cachedData"
    using fresh [of cachedData] plain_root [OF assms(1)] by auto
  have later: "serialize fuel (foldl mutate h' ws) (VRef cachedData) = Some doc \<and>
        (\<exists>data2 h2. getCachedData fuel (foldl mutate h' ws) cachedData stamp2 = Some (data2, h2) \<and>
           serialize fuel h2 data2 = Some (stamped doc stamp2))"
    if "\<forall>w \<in> set ws. length h \<le> fst w" for ws stamp2
  proof -
    have "prefix h (foldl mutate h' ws)" using p that by (rule prefix_mutations)
    then have s: "serialize fuel (foldl mutate h' ws) (VRef cachedData) = Some doc" by (rule same)
    from getCachedData_content [OF s, of stamp2] s show ?thesis by blast
  qed
  from g gd t p same [OF p] c fresh apart later show ?thesis
    by blast
qed

lemma sample_plain: "plain 4 sampleHeap (VRef 0)"
  by (simp add: eval_nat_numeral sampleHeap_def)

lemma sample_serialize: "serialize 4 sampleHeap (VRef 0) = Some sampleDoc"
  by (simp add: eval_nat_numeral sampleHeap_def sampleDoc_def)

lemma sample_read: "getCachedData 4 sampleHeap 0 ''t1'' = Some (VRef 13, sampleRead)"
  by (simp add: getCachedData_def sample_serialize)
    (simp add: sampleDoc_def sampleHeap_def sampleRead_def)

theorem independent_copy_witness:
  "plain 4 sampleHeap (VRef 0) \<and>
   getCachedData 9 sampleHeap 0 ''t1'' = Some (VRef 13, sampleRead) \<and>
   serialize 9 sampleRead (VRef 13) = Some (stamped sampleDoc ''t1'') \<and>
   serialize 9 (foldl mutate sampleRead sampleEdits) (VRef 0) = Some sampleDoc \<and>
   map_option (\<lambda>r. serialize 9 (snd r) (fst r))
       (getCachedData 9 (foldl mutate sampleRead sampleEdits) 0 ''t2'')
     = Some (Some (stamped sampleDoc ''t2''))"
proof -
  have le: "(4::nat) \<le> 9" by simp
  from getCachedData_returns_independent_copy [OF sample_plain le, of "''t1''"]
  obtain doc data h' where
    g: "getCachedData 9 sampleHeap 0 ''t1'' = Some (data, h')"
    and gd: "getCachedData 4 sampleHeap 0 ''t1'' = Some (data, h')"
    and t: "serialize 9 sampleHeap (VRef 0) = Some doc"
    and c: "serialize 9 h' data = Some (stamped doc ''t1'')"
    and later: "\<And>ws stamp2. \<forall>w \<in> set ws. length sampleHeap \<le> fst w \<Longrightarrow>
        serialize 9 (foldl mutate h' ws) (VRef 0) = Some doc \<and>
        (\<exists>data2 h2. getCachedData 9 (foldl mutate h' ws) 0 stamp2 = Some (data2, h2) \<and>
           serialize 9 h2 data2 = Some (stamped doc stamp2))"
    by blast
  from gd sample_read have d: "data = VRef 13" and h': "h' = sampleRead" by simp_all
  have "serialize 9 sampleHeap (VRef 0) = Some sampleDoc"
    using sample_serialize by (rule serialize_stable) simp_all
  with t have doc: "doc = sampleDoc" by simp
  have "\<forall>w \<in> set sampleEdits. length sampleHeap \<le> fst w"
    by (simp add: sampleEdits_def sampleHeap_def)
  from later [OF this, of "''t2''"] obtain data2 h2 where
    m: "serialize 9 (foldl mutate h' sampleEdits) (VRef 0) = Some doc"
    and g2: "getCachedData 9 (foldl mutate h' sampleEdits) 0 ''t2'' = Some (data2, h2)"
    and c2: "serialize 9 h2 data2 = Some (stamped doc ''t2'')"
    by blast
  show ?thesis
    using sample_plain g c m g2 c2 unfolding d h' doc by simp
qed

end
